theory Spec2Isabelle
  imports Main "HOL-Library.Word"
begin

unbundle bit_operations_syntax

section \<open>The glue generator of OpenPLC\<close>

text \<open>
  A shallow embedding of \<^verbatim>\<open>utils/glue_generator_src/glue_generator.cpp\<close>: the parser
  \<^verbatim>\<open>parseIecVars\<close>, the decoder \<^verbatim>\<open>findPositions\<close>, the emitters \<^verbatim>\<open>glueVar\<close>,
  \<^verbatim>\<open>generateBoolGroups\<close>, \<^verbatim>\<open>generateIntegratedGlue\<close> and \<^verbatim>\<open>generateChecksum\<close>, and
  \<^verbatim>\<open>generateBody\<close>, which runs them. Each is a HOL function of the same name; a loop of the
  source is a recursive function of its own. \<^verbatim>\<open>generateHeader\<close> and \<^verbatim>\<open>generateBottom\<close> write
  fixed text and \<^verbatim>\<open>mainImpl\<close> opens the files; they are not part of the model.

  An output stream is modelled by the text a call appends to it; a call that writes to
  both \<^verbatim>\<open>glueVars\<close> and \<^verbatim>\<open>cout\<close> returns the two texts as a pair. Reads and writes outside an
  array, reads of memory that was never written and an \<^verbatim>\<open>atoi\<close> that leaves the range of
  \<^verbatim>\<open>int\<close> are undefined behaviour in C++; the model returns them as errors (\<open>Inl\<close>), so that
  a result \<open>Inr\<close> stands for a run whose behaviour the language defines.
\<close>

subsection \<open>Data\<close>

type_synonym uint16_t = "16 word"
type_synonym md5_byte_t = "8 word"

datatype error = OutOfBounds | Uninitialised | Overflow

text \<open>\<^verbatim>\<open>struct IecVar\<close>\<close>

record IecVar =
  name :: string
  type :: string
  pos1 :: uint16_t
  pos2 :: uint16_t

definition NUL :: char where
  "NUL = CHR 0x00"

definition TAB :: char where
  "TAB = CHR 0x09"

definition NL :: char where
  "NL = CHR 0x0A"

text \<open>Decimal output of an unsigned number: \<^verbatim>\<open>std::to_string\<close> and \<^verbatim>\<open>operator<<\<close>.\<close>

fun to_string :: "nat \<Rightarrow> string" where
  "to_string n = (if n < 10 then [''0123456789'' ! n]
     else to_string (n div 10) @ [''0123456789'' ! (n mod 10)])"

declare to_string.simps [simp del]

text \<open>
  \<^verbatim>\<open>s[i]\<close> on a \<^verbatim>\<open>std::string\<close>, and on the pointer \<^verbatim>\<open>s.c_str()\<close>: the characters, then the
  terminating NUL at index \<open>length s\<close>; any larger index is outside the object.
\<close>

definition string_at :: "string \<Rightarrow> nat \<Rightarrow> error + char" where
  "string_at s i = (if i < length s then Inr (s ! i)
     else if i = length s then Inr NUL else Inl OutOfBounds)"

text \<open>What \<^verbatim>\<open>operator<<\<close> prints for a \<^verbatim>\<open>const char*\<close>: the characters before the first NUL.\<close>

definition c_text :: "string \<Rightarrow> string" where
  "c_text s = takeWhile (\<lambda>c. c \<noteq> NUL) s"

subsection \<open>The direct-assignment pass: \<^verbatim>\<open>glueVar\<close>\<close>

text \<open>
  The statement \<^verbatim>\<open>"\t" buffer "[" index "] = " cast varName ";\n"\<close> written by every case of
  \<^verbatim>\<open>glueVar\<close> but the two bit cases.
\<close>

definition assignment :: "string \<Rightarrow> nat \<Rightarrow> string \<Rightarrow> string \<Rightarrow> string" where
  "assignment buffer index cast varName =
     TAB # buffer @ ''['' @ to_string index @ ''] = '' @ cast @ c_text varName @ '';'' @ [NL]"

definition bit_assignment :: "string \<Rightarrow> nat \<Rightarrow> nat \<Rightarrow> string \<Rightarrow> string" where
  "bit_assignment buffer index sub varName =
     TAB # buffer @ ''['' @ to_string index @ '']['' @ to_string sub @ ''] = ''
       @ c_text varName @ '';'' @ [NL]"

text \<open>The message written to \<^verbatim>\<open>cout\<close> when \<^verbatim>\<open>pos2 >= 8\<close>.\<close>

definition invalid_addressing :: "string \<Rightarrow> string" where
  "invalid_addressing varName =
     ''***Invalid addressing on located variable'' @ c_text varName @ ''***'' @ [NL]"

text \<open>
  \<^verbatim>\<open>glueVar\<close> returns the text appended to \<^verbatim>\<open>glueVars\<close> and the text appended to \<^verbatim>\<open>cout\<close>.
  \<^verbatim>\<open>varName[3]\<close> is read only inside the three direction branches.
\<close>

definition glueVar :: "string \<Rightarrow> uint16_t \<Rightarrow> uint16_t \<Rightarrow> error + (string \<times> string)" where
  "glueVar varName p1 p2 =
     (let log = (if 8 \<le> p2 then invalid_addressing varName else [])
      in case string_at varName 2 of
           Inl e \<Rightarrow> Inl e
         | Inr d \<Rightarrow>
             if d = CHR ''I'' then
               (case string_at varName 3 of
                  Inl e \<Rightarrow> Inl e
                | Inr s \<Rightarrow>
                    if s = CHR ''X'' then
                      Inr (bit_assignment ''bool_input'' (unat p1) (unat p2) varName, log)
                    else if s = CHR ''B'' then
                      Inr (assignment ''byte_input'' (unat p1) [] varName, log)
                    else if s = CHR ''W'' then
                      Inr (assignment ''int_input'' (unat p1) [] varName, log)
                    else Inr ([], log))
             else if d = CHR ''Q'' then
               (case string_at varName 3 of
                  Inl e \<Rightarrow> Inl e
                | Inr s \<Rightarrow>
                    if s = CHR ''X'' then
                      Inr (bit_assignment ''bool_output'' (unat p1) (unat p2) varName, log)
                    else if s = CHR ''B'' then
                      Inr (assignment ''byte_output'' (unat p1) [] varName, log)
                    else if s = CHR ''W'' then
                      Inr (assignment ''int_output'' (unat p1) [] varName, log)
                    else Inr ([], log))
             else if d = CHR ''M'' then
               (case string_at varName 3 of
                  Inl e \<Rightarrow> Inl e
                | Inr s \<Rightarrow>
                    if s = CHR ''W'' then
                      Inr (assignment ''int_memory'' (unat p1) [] varName, log)
                    else if s = CHR ''D'' then
                      Inr (assignment ''dint_memory'' (unat p1) ''(IEC_DINT *)'' varName, log)
                    else if s = CHR ''L'' then
                      (if 1023 < p1 then
                         Inr (assignment ''special_functions'' (unat p1 - 1024)
                                ''(IEC_LINT *)'' varName, log)
                       else
                         Inr (assignment ''lint_memory'' (unat p1) ''(IEC_LINT *)'' varName, log))
                    else Inr ([], log))
             else Inr ([], log))"

text \<open>
  The routing of a long-word memory declaration in the words of the specification:
  the special-function buffer exactly when the major index exceeds 1024.
\<close>

definition spec_long_word_statement :: "string \<Rightarrow> uint16_t \<Rightarrow> string" where
  "spec_long_word_statement varName p1 =
     (if 1024 < p1 then
        assignment ''special_functions'' (unat p1 - 1024) ''(IEC_LINT *)'' varName
      else assignment ''lint_memory'' (unat p1) ''(IEC_LINT *)'' varName)"

subsection \<open>The checksum literal: \<^verbatim>\<open>generateChecksum\<close>\<close>

definition QUOTE :: char where
  "QUOTE = CHR 0x27"

definition hex_chars :: string where
  "hex_chars = ''0123456789ABCDEF''"

text \<open>The two quoted hexadecimal digits written for one byte of the digest.\<close>

definition hex_pair :: "md5_byte_t \<Rightarrow> string" where
  "hex_pair b =
     QUOTE # hex_chars ! unat (drop_bit 4 (b AND 0xF0)) # QUOTE # '', ''
     @ QUOTE # hex_chars ! unat (drop_bit 0 (b AND 0x0F)) # QUOTE # '', ''"

text \<open>
  The loop \<^verbatim>\<open>for (int i = 0; i <= 16; ++i)\<close> over the array \<^verbatim>\<open>digest\<close>, the text written so far
  carried along. Reading \<^verbatim>\<open>digest[i]\<close> at or beyond the length of the array is the error.
\<close>

function checksum_loop :: "md5_byte_t list \<Rightarrow> nat \<Rightarrow> string \<Rightarrow> error + string" where
  "checksum_loop digest i out =
     (if i \<le> 16 then
        (if i < length digest then checksum_loop digest (i + 1) (out @ hex_pair (digest ! i))
         else Inl OutOfBounds)
      else Inr out)"
  by pat_completeness auto
termination
  by (relation "measure (\<lambda>(digest, i, out). 17 - i)") auto

declare checksum_loop.simps [simp del]

definition generateChecksum :: "md5_byte_t list \<Rightarrow> error + string" where
  "generateChecksum digest =
     (case checksum_loop digest 0
             (''/// MD5 checksum of the located variables.'' @ [NL]
              @ ''/// WARNING: this must not be used to trust file contents.'' @ [NL]
              @ ''extern const char OPLCGLUE_MD5_DIGEST[] = {'') of
        Inl e \<Rightarrow> Inl e
      | Inr out \<Rightarrow> Inr (out @ ''};'' @ [NL] @ [NL, NL]))"

subsection \<open>The boolean groups: \<^verbatim>\<open>generateBoolGroups\<close>\<close>

text \<open>
  \<^verbatim>\<open>map<uint16_t, array<string, 8>>\<close>: the entries of the map in the order in which an iterator
  visits them, that is by ascending key. \<^verbatim>\<open>array<string, 8>\<close> is a list of eight strings.
\<close>

type_synonym bool_groups = "(uint16_t \<times> string list) list"

text \<open>\<^verbatim>\<open>items.find(k)\<close>: \<open>None\<close> stands for \<^verbatim>\<open>items.end()\<close>.\<close>

definition map_find :: "bool_groups \<Rightarrow> uint16_t \<Rightarrow> string list option" where
  "map_find items k = map_of items k"

text \<open>\<^verbatim>\<open>items[k] = a\<close>: the entry is replaced, or inserted at its place in the order of keys.\<close>

fun map_assign :: "bool_groups \<Rightarrow> uint16_t \<Rightarrow> string list \<Rightarrow> bool_groups" where
  "map_assign [] k a = [(k, a)]"
| "map_assign ((k', a') # items) k a =
     (if k < k' then (k, a) # (k', a') # items
      else if k = k' then (k, a) # items
      else (k', a') # map_assign items k a)"

text \<open>
  \<^verbatim>\<open>items[p1][p2] = nm\<close>. \<^verbatim>\<open>operator[]\<close> of the map creates a missing entry;
  \<^verbatim>\<open>operator[]\<close> of the array does not check its index, and the array has eight elements.
\<close>

definition slot_assign :: "bool_groups \<Rightarrow> uint16_t \<Rightarrow> uint16_t \<Rightarrow> string \<Rightarrow> error + bool_groups" where
  "slot_assign items p1 p2 nm =
     (let slots = (case map_find items p1 of None \<Rightarrow> replicate 8 [] | Some a \<Rightarrow> a)
      in if 8 \<le> unat p2 then Inl OutOfBounds
         else Inr (map_assign items p1 (slots[unat p2 := nm])))"

text \<open>The three maps \<^verbatim>\<open>inputs\<close>, \<^verbatim>\<open>outputs\<close> and \<^verbatim>\<open>memory\<close>, and the pointer \<^verbatim>\<open>container\<close> to one of them.\<close>

datatype container = inputs | outputs | memory

definition container_of :: "char \<Rightarrow> container" where
  "container_of directionFlag =
     (if directionFlag = CHR ''I'' then inputs
      else if directionFlag = CHR ''Q'' then outputs
      else memory)"

text \<open>
  The loop of \<^verbatim>\<open>generateBoolGroups(ostream&, list<IecVar>&)\<close>. It returns the list as the loop
  leaves it and the three maps.
\<close>

fun group_loop ::
  "IecVar list \<Rightarrow> (container \<Rightarrow> bool_groups) \<Rightarrow> error + (IecVar list \<times> (container \<Rightarrow> bool_groups))"
where
  "group_loop [] maps = Inr ([], maps)"
| "group_loop (v # vs) maps =
     (case string_at (name v) 3 of
        Inl e \<Rightarrow> Inl e
      | Inr sizeFlag \<Rightarrow>
          if sizeFlag \<noteq> CHR ''X'' then
            (case group_loop vs maps of
               Inl e \<Rightarrow> Inl e
             | Inr (vs', maps') \<Rightarrow> Inr (v # vs', maps'))
          else
            (case string_at (name v) 2 of
               Inl e \<Rightarrow> Inl e
             | Inr directionFlag \<Rightarrow>
                 let c = container_of directionFlag; p1 = pos1 v; p2 = pos2 v; nm = name v
                 in (case map_find (maps c) p1 of
                       None \<Rightarrow>
                         (let created = map_assign (maps c) p1 (replicate 8 []);
                              v' = v\<lparr>name := ''__'' @ [directionFlag] @ ''G'' @ to_string (unat p1),
                                     pos2 := 0\<rparr>
                          in case slot_assign created p1 p2 nm of
                               Inl e \<Rightarrow> Inl e
                             | Inr items \<Rightarrow>
                                 (case group_loop vs (maps(c := items)) of
                                    Inl e \<Rightarrow> Inl e
                                  | Inr (vs', maps') \<Rightarrow> Inr (v' # vs', maps')))
                     | Some a \<Rightarrow>
                         (case slot_assign (maps c) p1 p2 nm of
                            Inl e \<Rightarrow> Inl e
                          | Inr items \<Rightarrow> group_loop vs (maps(c := items))))))"

text \<open>
  \<^verbatim>\<open>generateBoolGroups(ostream&, char, map<...>&)\<close>: the two lines written for one group, and
  the loop over the map.
\<close>

definition group_constant :: "char \<Rightarrow> uint16_t \<times> string list \<Rightarrow> string" where
  "group_constant direction g =
     (let nm = direction # CHR ''G'' # to_string (unat (fst g))
      in ''GlueBoolGroup ___'' @ nm @ '' { .index='' @ to_string (unat (fst g))
           @ '', .values={ ''
           @ concat (map (\<lambda>s. if s = [] then ''nullptr, '' else s @ '', '') (snd g))
           @ ''} };'' @ [NL]
           @ ''GlueBoolGroup* __'' @ nm @ ''(&___'' @ nm @ '');'' @ [NL])"

definition generateBoolGroups_items :: "char \<Rightarrow> bool_groups \<Rightarrow> string" where
  "generateBoolGroups_items direction items =
     (if items = [] then [] else concat (map (group_constant direction) items))"

text \<open>
  \<^verbatim>\<open>generateBoolGroups(ostream&, list<IecVar>&)\<close>: the text appended to \<^verbatim>\<open>glueVars\<close> and the
  list \<^verbatim>\<open>all_vars\<close> as the call leaves it.
\<close>

definition generateBoolGroups :: "IecVar list \<Rightarrow> error + (string \<times> IecVar list)" where
  "generateBoolGroups all_vars =
     (case group_loop all_vars (\<lambda>c. []) of
        Inl e \<Rightarrow> Inl e
      | Inr (vars', maps) \<Rightarrow>
          Inr (generateBoolGroups_items CHR ''I'' (maps inputs)
               @ generateBoolGroups_items CHR ''Q'' (maps outputs)
               @ generateBoolGroups_items CHR ''M'' (maps memory), vars'))"

subsection \<open>The unified table: \<^verbatim>\<open>generateIntegratedGlue\<close>\<close>

definition fromDirectionFlag :: "char \<Rightarrow> string" where
  "fromDirectionFlag flag =
     (if flag = CHR ''I'' then ''IN'' else if flag = CHR ''Q'' then ''OUT'' else ''MEM'')"

definition fromSizeFlag :: "char \<Rightarrow> string" where
  "fromSizeFlag flag =
     (if flag = CHR ''G'' \<or> flag = CHR ''X'' then ''BIT''
      else if flag = CHR ''B'' then ''BYTE''
      else if flag = CHR ''W'' then ''WORD''
      else if flag = CHR ''D'' then ''DOUBLEWORD''
      else ''LONGWORD'')"

text \<open>The row written for one declaration by the body of the loop.\<close>

definition glue_row :: "IecVar \<Rightarrow> error + string" where
  "glue_row v =
     (case string_at (name v) 2 of
        Inl e \<Rightarrow> Inl e
      | Inr directionFlag \<Rightarrow>
          (case string_at (name v) 3 of
             Inl e \<Rightarrow> Inl e
           | Inr sizeFlag \<Rightarrow>
               Inr (''    {'' @ '' IECLDT_'' @ fromDirectionFlag directionFlag @ '',''
                    @ '' IECLST_'' @ fromSizeFlag sizeFlag @ '',''
                    @ '' '' @ to_string (unat (pos1 v)) @ '',''
                    @ '' '' @ to_string (unat (pos2 v)) @ '',''
                    @ '' IECVT_'' @ type v @ '', ''
                    @ '' '' @ name v @ '' },'' @ [NL])))"

text \<open>The loop over \<^verbatim>\<open>all_vars\<close>: the rows in the order written.\<close>

fun glue_rows :: "IecVar list \<Rightarrow> error + string list" where
  "glue_rows [] = Inr []"
| "glue_rows (v # vs) =
     (case glue_row v of
        Inl e \<Rightarrow> Inl e
      | Inr row \<Rightarrow> (case glue_rows vs of Inl e \<Rightarrow> Inl e | Inr rows \<Rightarrow> Inr (row # rows)))"

text \<open>The text before the rows, with the size constant, and the text after them.\<close>

definition glue_table_head :: "nat \<Rightarrow> string" where
  "glue_table_head n =
     ''/// The size of the array of glue variables.'' @ [NL]
     @ ''extern std::size_t const OPLCGLUE_GLUE_SIZE('' @ to_string n @ '');'' @ [NL]
     @ ''/// The packed glue variables.'' @ [NL]
     @ ''extern const GlueVariable oplc_glue_vars[] = {'' @ [NL]"

definition generateIntegratedGlue :: "IecVar list \<Rightarrow> error + string" where
  "generateIntegratedGlue all_vars =
     (case glue_rows all_vars of
        Inl e \<Rightarrow> Inl e
      | Inr rows \<Rightarrow>
          Inr (glue_table_head (length all_vars) @ concat rows @ ''};'' @ [NL, NL]))"

subsection \<open>The grouping in the words of the specification\<close>

text \<open>A declaration is bit-addressed when the size flag of its name, \<^verbatim>\<open>name[3]\<close>, is \<open>X\<close>.\<close>

definition is_bit :: "IecVar \<Rightarrow> bool" where
  "is_bit v = (string_at (name v) 3 = Inr CHR ''X'')"

text \<open>The key of its group: the direction, one of the three containers, and the major index.\<close>

definition group_key :: "IecVar \<Rightarrow> container \<times> uint16_t" where
  "group_key v = (container_of (name v ! 2), pos1 v)"

text \<open>
  The entry that stands for a group: the declaration under the synthetic name
  \<^verbatim>\<open>__<direction>G<majorIndex>\<close>, its minor index cleared.
\<close>

definition group_entry :: "IecVar \<Rightarrow> IecVar" where
  "group_entry v =
     v\<lparr>name := ''__'' @ [name v ! 2] @ ''G'' @ to_string (unat (pos1 v)), pos2 := 0\<rparr>"

text \<open>
  The list the specification asks for, the declarations before the current one in
  \<open>seen\<close>: a declaration that is not bit-addressed stays as it is, the first
  bit-addressed declaration of a key becomes the entry of its group, and every later one
  of that key is dropped.
\<close>

fun first_of_groups :: "IecVar list \<Rightarrow> IecVar list \<Rightarrow> IecVar list" where
  "first_of_groups seen [] = []"
| "first_of_groups seen (v # vs) =
     (if \<not> is_bit v then v # first_of_groups (seen @ [v]) vs
      else if \<exists>w \<in> set seen. is_bit w \<and> group_key w = group_key v
        then first_of_groups (seen @ [v]) vs
      else group_entry v # first_of_groups (seen @ [v]) vs)"

text \<open>
  The lists on which the grouping stays inside its objects: \<^verbatim>\<open>name[3]\<close> exists for every
  declaration, and the minor index of every bit-addressed one is an index of the array of
  eight slots.
\<close>

definition well_addressed :: "IecVar list \<Rightarrow> bool" where
  "well_addressed vars =
     (\<forall>v \<in> set vars. 3 \<le> length (name v) \<and> (is_bit v \<longrightarrow> pos2 v < 8))"

text \<open>The bit-addressed declarations of a list that belong to the group \<open>(c, p)\<close>, in order.\<close>

definition members :: "container \<Rightarrow> uint16_t \<Rightarrow> IecVar list \<Rightarrow> IecVar list" where
  "members c p vars = filter (\<lambda>v. is_bit v \<and> group_key v = (c, p)) vars"

text \<open>The write \<^verbatim>\<open>slots[pos2] = name\<close> of a declaration into the array of its group.\<close>

definition write_slot :: "IecVar \<Rightarrow> string list \<Rightarrow> string list" where
  "write_slot v a = a[unat (pos2 v) := name v]"

text \<open>Each of the three maps lists its keys in strictly ascending order.\<close>

definition sorted_maps :: "(container \<Rightarrow> bool_groups) \<Rightarrow> bool" where
  "sorted_maps maps = (sorted_wrt (<) (map fst (maps inputs)) \<and>
     sorted_wrt (<) (map fst (maps outputs)) \<and> sorted_wrt (<) (map fst (maps memory)))"

text \<open>The number of groups in the three maps.\<close>

definition groups_total :: "(container \<Rightarrow> bool_groups) \<Rightarrow> nat" where
  "groups_total maps = length (maps inputs) + length (maps outputs) + length (maps memory)"

text \<open>
  Slot \<open>k\<close> of the group \<open>(c, p)\<close> in the words of the specification: the name of the last
  declaration of the list that claims \<open>(c, p, k)\<close>, and empty when there is none.
\<close>

definition slot_of :: "container \<Rightarrow> uint16_t \<Rightarrow> IecVar list \<Rightarrow> nat \<Rightarrow> string" where
  "slot_of c p vars k =
     (case find (\<lambda>v. is_bit v \<and> group_key v = (c, p) \<and> unat (pos2 v) = k) (rev vars) of
        None \<Rightarrow> []
      | Some v \<Rightarrow> name v)"

text \<open>A group is non-empty when one of its slots holds a name.\<close>

definition nonempty_group :: "uint16_t \<times> string list \<Rightarrow> bool" where
  "nonempty_group g = (\<exists>s \<in> set (snd g). s \<noteq> [])"

subsection \<open>Sample declarations\<close>

text \<open>
  The declarations of \<^verbatim>\<open>%IX0.0\<close>, \<^verbatim>\<open>%QB3\<close>, \<^verbatim>\<open>%QX2.7\<close>, \<^verbatim>\<open>%IX0.1\<close>, \<^verbatim>\<open>%QX1.7\<close> and \<^verbatim>\<open>%QX2.0\<close> as
  \<^verbatim>\<open>generateBody\<close> decodes them, the list \<^verbatim>\<open>generateBoolGroups\<close> leaves and the text it writes.
\<close>

definition sample_vars :: "IecVar list" where
  "sample_vars =
     [\<lparr>name = ''__IX0_0'', type = ''BOOL'', pos1 = 0, pos2 = 0\<rparr>,
      \<lparr>name = ''__QB3'', type = ''BYTE'', pos1 = 3, pos2 = 0\<rparr>,
      \<lparr>name = ''__QX2_7'', type = ''BOOL'', pos1 = 2, pos2 = 7\<rparr>,
      \<lparr>name = ''__IX0_1'', type = ''BOOL'', pos1 = 0, pos2 = 1\<rparr>,
      \<lparr>name = ''__QX1_7'', type = ''BOOL'', pos1 = 1, pos2 = 7\<rparr>,
      \<lparr>name = ''__QX2_0'', type = ''BOOL'', pos1 = 2, pos2 = 0\<rparr>]"

definition sample_grouped :: "IecVar list" where
  "sample_grouped =
     [\<lparr>name = ''__IG0'', type = ''BOOL'', pos1 = 0, pos2 = 0\<rparr>,
      \<lparr>name = ''__QB3'', type = ''BYTE'', pos1 = 3, pos2 = 0\<rparr>,
      \<lparr>name = ''__QG2'', type = ''BOOL'', pos1 = 2, pos2 = 0\<rparr>,
      \<lparr>name = ''__QG1'', type = ''BOOL'', pos1 = 1, pos2 = 0\<rparr>]"

definition sample_groups_text :: string where
  "sample_groups_text =
     ''GlueBoolGroup ___IG0 { .index=0, .values={ __IX0_0, __IX0_1, nullptr, nullptr, nullptr, nullptr, nullptr, nullptr, } };'' @ [NL]
     @ ''GlueBoolGroup* __IG0(&___IG0);'' @ [NL]
     @ ''GlueBoolGroup ___QG1 { .index=1, .values={ nullptr, nullptr, nullptr, nullptr, nullptr, nullptr, nullptr, __QX1_7, } };'' @ [NL]
     @ ''GlueBoolGroup* __QG1(&___QG1);'' @ [NL]
     @ ''GlueBoolGroup ___QG2 { .index=2, .values={ __QX2_0, nullptr, nullptr, nullptr, nullptr, nullptr, nullptr, __QX2_7, } };'' @ [NL]
     @ ''GlueBoolGroup* __QG2(&___QG2);'' @ [NL]"

text \<open>Two declarations of different names that claim the same slot.\<close>

definition sample_collision :: "IecVar list" where
  "sample_collision =
     [\<lparr>name = ''__IX0_0'', type = ''BOOL'', pos1 = 0, pos2 = 0\<rparr>,
      \<lparr>name = ''__IX00_0'', type = ''BOOL'', pos1 = 0, pos2 = 0\<rparr>]"

subsection \<open>Character arrays and the input stream\<close>

text \<open>
  A \<^verbatim>\<open>char\<close> array: one cell per element, \<open>None\<close> for a cell that was never written. The
  arrays \<^verbatim>\<open>iecVar_name\<close>, \<^verbatim>\<open>iecVar_type\<close> and \<^verbatim>\<open>tempBuffer\<close> are declared without an
  initialiser.
\<close>

type_synonym cells = "char option list"

definition array_at :: "cells \<Rightarrow> nat \<Rightarrow> error + char" where
  "array_at a i =
     (if length a \<le> i then Inl OutOfBounds
      else case a ! i of None \<Rightarrow> Inl Uninitialised | Some c \<Rightarrow> Inr c)"

text \<open>
  The C string an array holds, as \<^verbatim>\<open>operator<<\<close>, \<^verbatim>\<open>atoi\<close> and the constructor of
  \<^verbatim>\<open>std::string\<close> read it: the characters before the first NUL.
\<close>

fun c_str :: "cells \<Rightarrow> error + string" where
  "c_str [] = Inl OutOfBounds"
| "c_str (None # a) = Inl Uninitialised"
| "c_str (Some c # a) =
     (if c = NUL then Inr []
      else case c_str a of Inl e \<Rightarrow> Inl e | Inr s \<Rightarrow> Inr (c # s))"

text \<open>
  \<^verbatim>\<open>getline(locatedVars, line)\<close> on the characters the stream has left: it fails when there
  is none, and otherwise takes the characters up to the next newline and discards the
  newline. The result is the line and the rest of the stream.
\<close>

definition getline :: "string \<Rightarrow> (string \<times> string) option" where
  "getline locatedVars =
     (if locatedVars = [] then None
      else Some (takeWhile (\<lambda>c. c \<noteq> NL) locatedVars,
                 drop 1 (dropWhile (\<lambda>c. c \<noteq> NL) locatedVars)))"

subsection \<open>The checksum state\<close>

text \<open>
  Modelled from the spec: \<^verbatim>\<open>md5.h\<close> and its implementation are not among the sources. The
  specification treats the checksum as an opaque streaming hash with the operations
  init, append and finish. The state is the sequence of bytes appended so far; the digest
  function itself is a parameter \<open>md5_finish\<close> of \<^verbatim>\<open>generateBody\<close>, from the bytes appended
  to the 16 bytes of the digest.
\<close>

definition md5_init :: string where
  "md5_init = []"

definition md5_append :: "string \<Rightarrow> string \<Rightarrow> string" where
  "md5_append md5_state bytes = md5_state @ bytes"

subsection \<open>The declaration parser: \<^verbatim>\<open>parseIecVars\<close>\<close>

text \<open>
  \<^verbatim>\<open>buffer[i]\<close> after \<^verbatim>\<open>strncpy(buffer, line.c_str(), 1024)\<close>: the characters of the line before
  its first NUL, at most 1024 of them, and NUL in the rest of the 1024 elements.
\<close>

definition buffer_at :: "string \<Rightarrow> nat \<Rightarrow> error + char" where
  "buffer_at line i =
     (if 1024 \<le> i then Inl OutOfBounds
      else if i < length (c_text line) then Inr (c_text line ! i)
      else Inr NUL)"

text \<open>\<^verbatim>\<open>for (i = 0; buffer[i] != '('; i++)\<close>, from index \<open>i\<close> on.\<close>

function skip_to_paren :: "string \<Rightarrow> nat \<Rightarrow> error + nat" where
  "skip_to_paren line i =
     (case buffer_at line i of
        Inl e \<Rightarrow> Inl e
      | Inr c \<Rightarrow> if c \<noteq> CHR ''('' then skip_to_paren line (i + 1) else Inr i)"
  by pat_completeness auto
termination
  by (relation "measure (\<lambda>(line, i). 1024 - i)") (auto simp: buffer_at_def split: if_splits)

declare skip_to_paren.simps [simp del]

text \<open>
  \<^verbatim>\<open>while (buffer[i] != ',') { dst[j] = buffer[i]; i++; j++; dst[j] = '\0'; }\<close> for the array
  \<open>dst\<close>, which is \<^verbatim>\<open>varType\<close> in the first loop and \<^verbatim>\<open>varName\<close> in the second. The result is
  the index \<open>i\<close> the loop stops at and the array.
\<close>

function copy_field :: "string \<Rightarrow> nat \<Rightarrow> cells \<Rightarrow> nat \<Rightarrow> error + (nat \<times> cells)" where
  "copy_field line i dst j =
     (case buffer_at line i of
        Inl e \<Rightarrow> Inl e
      | Inr c \<Rightarrow>
          if c \<noteq> CHR '','' then
            (if j + 1 < length dst
             then copy_field line (i + 1) (dst[j := Some c, j + 1 := Some NUL]) (j + 1)
             else Inl OutOfBounds)
          else Inr (i, dst))"
  by pat_completeness auto
termination
  by (relation "measure (\<lambda>(line, i, dst, j). 1024 - i)") (auto simp: buffer_at_def split: if_splits)

declare copy_field.simps [simp del]

text \<open>
  \<^verbatim>\<open>parseIecVars\<close>. \<open>Inr None\<close> is the return value 0; \<open>Inr (Some \<dots>)\<close> is the return value 1,
  with the rest of the stream, the arrays \<^verbatim>\<open>varName\<close> and \<^verbatim>\<open>varType\<close> and the checksum state
  as the call leaves them.
\<close>

definition parseIecVars ::
  "string \<Rightarrow> cells \<Rightarrow> cells \<Rightarrow> string \<Rightarrow> error + (string \<times> cells \<times> cells \<times> string) option"
where
  "parseIecVars locatedVars varName varType md5_state =
     (case getline locatedVars of
        None \<Rightarrow> Inr None
      | Some (line, rest) \<Rightarrow>
          (case skip_to_paren line 0 of
             Inl e \<Rightarrow> Inl e
           | Inr i \<Rightarrow>
               (case copy_field line (i + 1) varType 0 of
                  Inl e \<Rightarrow> Inl e
                | Inr (i', varType') \<Rightarrow>
                    (case copy_field line (i' + 1) varName 0 of
                       Inl e \<Rightarrow> Inl e
                     | Inr (i'', varName') \<Rightarrow>
                         Inr (Some (rest, varName', varType', md5_append md5_state line))))))"

subsection \<open>The address decoder: \<^verbatim>\<open>findPositions\<close>\<close>

text \<open>
  \<^verbatim>\<open>atoi\<close>, as the C standard describes it: white space, an optional sign, decimal digits.
  A value outside the range of \<^verbatim>\<open>int\<close> has no defined result.
\<close>

definition isspace :: "char \<Rightarrow> bool" where
  "isspace c = (c = CHR '' '' \<or> c = CHR 0x09 \<or> c = CHR 0x0A \<or> c = CHR 0x0B
     \<or> c = CHR 0x0C \<or> c = CHR 0x0D)"

definition isdigit :: "char \<Rightarrow> bool" where
  "isdigit c = (c \<in> set ''0123456789'')"

fun digits_value :: "int \<Rightarrow> string \<Rightarrow> int" where
  "digits_value acc [] = acc"
| "digits_value acc (c # cs) =
     (if isdigit c then digits_value (10 * acc + (of_char c - 48)) cs else acc)"

definition atoi :: "string \<Rightarrow> error + int" where
  "atoi s =
     (let s1 = dropWhile isspace s;
          negative = (s1 \<noteq> [] \<and> hd s1 = CHR ''-'');
          s2 = (if s1 \<noteq> [] \<and> (hd s1 = CHR ''-'' \<or> hd s1 = CHR ''+'') then tl s1 else s1);
          v = digits_value 0 s2;
          r = (if negative then - v else v)
      in if r < - (2 ^ 31) \<or> 2 ^ 31 \<le> r then Inl Overflow else Inr r)"

text \<open>
  The two loops of \<^verbatim>\<open>findPositions\<close> that copy a numeral from \<^verbatim>\<open>varName\<close> into
  \<^verbatim>\<open>tempBuffer\<close>: the first stops at \<^verbatim>\<open>'_'\<close> and at NUL, the second at NUL only.
\<close>

function copy_numeral :: "bool \<Rightarrow> cells \<Rightarrow> nat \<Rightarrow> cells \<Rightarrow> nat \<Rightarrow> error + (nat \<times> cells)" where
  "copy_numeral first varName i tempBuffer j =
     (case array_at varName i of
        Inl e \<Rightarrow> Inl e
      | Inr c \<Rightarrow>
          if (if first then c \<noteq> CHR ''_'' \<and> c \<noteq> NUL else c \<noteq> NUL) then
            (if j + 1 < length tempBuffer
             then copy_numeral first varName (i + 1)
                    (tempBuffer[j := Some c, j + 1 := Some NUL]) (j + 1)
             else Inl OutOfBounds)
          else Inr (i, tempBuffer))"
  by pat_completeness auto
termination
  by (relation "measure (\<lambda>(first, varName, i, tempBuffer, j). length varName - i)")
    (auto simp: array_at_def split: if_splits)

declare copy_numeral.simps [simp del]

text \<open>\<^verbatim>\<open>*pos = atoi(tempBuffer)\<close>, with the conversion from \<^verbatim>\<open>int\<close> to \<^verbatim>\<open>uint16_t\<close>.\<close>

definition atoi_uint16 :: "cells \<Rightarrow> error + uint16_t" where
  "atoi_uint16 tempBuffer =
     (case c_str tempBuffer of
        Inl e \<Rightarrow> Inl e
      | Inr s \<Rightarrow> (case atoi s of Inl e \<Rightarrow> Inl e | Inr n \<Rightarrow> Inr (word_of_int n)))"

definition findPositions :: "cells \<Rightarrow> error + (uint16_t \<times> uint16_t)" where
  "findPositions varName =
     (case copy_numeral True varName 4 (replicate 100 None) 0 of
        Inl e \<Rightarrow> Inl e
      | Inr (i, tempBuffer) \<Rightarrow>
          (case atoi_uint16 tempBuffer of
             Inl e \<Rightarrow> Inl e
           | Inr p1 \<Rightarrow>
               (case array_at varName i of
                  Inl e \<Rightarrow> Inl e
                | Inr c \<Rightarrow>
                    if c = NUL then Inr (p1, 0)
                    else
                      (case copy_numeral False varName (i + 1) tempBuffer 0 of
                         Inl e \<Rightarrow> Inl e
                       | Inr (i', tempBuffer') \<Rightarrow>
                           (case atoi_uint16 tempBuffer' of
                              Inl e \<Rightarrow> Inl e
                            | Inr p2 \<Rightarrow> Inr (p1, p2))))))"

subsection \<open>The pipeline: \<^verbatim>\<open>generateBody\<close>\<close>

text \<open>
  The loop \<^verbatim>\<open>while (parseIecVars(...))\<close>: it returns the list \<^verbatim>\<open>all_vars\<close>, the checksum state
  and the text written to \<^verbatim>\<open>cout\<close>. The arrays \<^verbatim>\<open>iecVar_name\<close> and \<^verbatim>\<open>iecVar_type\<close> keep their
  contents from one call of the parser to the next.
\<close>

function read_loop ::
  "string \<Rightarrow> cells \<Rightarrow> cells \<Rightarrow> string \<Rightarrow> IecVar list \<Rightarrow> string
     \<Rightarrow> error + (IecVar list \<times> string \<times> string)"
where
  "read_loop locatedVars iecVar_name iecVar_type md5_state all_vars log =
     (case parseIecVars locatedVars iecVar_name iecVar_type md5_state of
        Inl e \<Rightarrow> Inl e
      | Inr None \<Rightarrow> Inr (all_vars, md5_state, log)
      | Inr (Some (rest, varName, varType, md5_state')) \<Rightarrow>
          (case c_str varName of
             Inl e \<Rightarrow> Inl e
           | Inr nm \<Rightarrow>
               (case c_str varType of
                  Inl e \<Rightarrow> Inl e
                | Inr ty \<Rightarrow>
                    (case findPositions varName of
                       Inl e \<Rightarrow> Inl e
                     | Inr (p1, p2) \<Rightarrow>
                         read_loop rest varName varType md5_state'
                           (all_vars @ [\<lparr>name = nm, type = ty, pos1 = p1, pos2 = p2\<rparr>])
                           (log @ ''varName: '' @ nm @ [TAB] @ ''varType: '' @ ty @ [NL])))))"
  by pat_completeness auto
termination
proof (relation "measure (\<lambda>(locatedVars, n, t, m, vs, log). length locatedVars)", goal_cases)
  case 1
  show ?case by simp
next
  case (2 locatedVars iecVar_name iecVar_type md5_state all_vars log parsed decl rest)
  then have "getline locatedVars = Some (takeWhile (\<lambda>c. c \<noteq> NL) locatedVars, rest)"
    by (auto simp: parseIecVars_def getline_def split: option.splits sum.splits if_splits)
  then have "locatedVars \<noteq> []" and "rest = drop 1 (dropWhile (\<lambda>c. c \<noteq> NL) locatedVars)"
    by (auto simp: getline_def split: if_splits)
  moreover have "length (dropWhile (\<lambda>c. c \<noteq> NL) locatedVars) \<le> length locatedVars"
    by (rule length_dropWhile_le)
  ultimately show ?case
    by (cases locatedVars) (auto simp: dropWhile_eq_Cons_conv split: if_splits)
qed

declare read_loop.simps [simp del]

text \<open>The loop that calls \<^verbatim>\<open>glueVar\<close> for every element of \<^verbatim>\<open>all_vars\<close>.\<close>

fun glueVars_loop :: "IecVar list \<Rightarrow> error + (string \<times> string)" where
  "glueVars_loop [] = Inr ([], [])"
| "glueVars_loop (v # vs) =
     (case glueVar (name v) (pos1 v) (pos2 v) of
        Inl e \<Rightarrow> Inl e
      | Inr (stmt, log) \<Rightarrow>
          (case glueVars_loop vs of
             Inl e \<Rightarrow> Inl e
           | Inr (stmts, logs) \<Rightarrow> Inr (stmt @ stmts, log @ logs)))"

text \<open>
  \<^verbatim>\<open>generateBody\<close> returns the text appended to \<^verbatim>\<open>glueVars\<close>, the text written to \<^verbatim>\<open>cout\<close> and
  the digest.
\<close>

definition generateBody ::
  "(string \<Rightarrow> md5_byte_t list) \<Rightarrow> string \<Rightarrow> error + (string \<times> string \<times> md5_byte_t list)"
where
  "generateBody md5_finish locatedVars =
     (case read_loop locatedVars (replicate 100 None) (replicate 100 None) md5_init [] [] of
        Inl e \<Rightarrow> Inl e
      | Inr (all_vars, md5_state, log) \<Rightarrow>
          (case glueVars_loop all_vars of
             Inl e \<Rightarrow> Inl e
           | Inr (stmts, log') \<Rightarrow>
               (case generateBoolGroups all_vars of
                  Inl e \<Rightarrow> Inl e
                | Inr (groups, all_vars') \<Rightarrow>
                    (case generateIntegratedGlue all_vars' of
                       Inl e \<Rightarrow> Inl e
                     | Inr table \<Rightarrow>
                         Inr (''void glueVars()'' @ [NL] @ ''{'' @ [NL] @ stmts @ ''}'' @ [NL, NL]
                                @ groups @ table,
                              log @ log', md5_finish md5_state)))))"

text \<open>
  The declarations of \<^verbatim>\<open>%ID0\<close> and \<^verbatim>\<open>%MX0.0\<close>, for which \<^verbatim>\<open>glueVar\<close> has no case.
\<close>

definition sample_bit_memory :: IecVar where
  "sample_bit_memory = \<lparr>name = ''__MX0_0'', type = ''BOOL'', pos1 = 0, pos2 = 0\<rparr>"

definition sample_unmapped :: "IecVar list" where
  "sample_unmapped =
     [\<lparr>name = ''__ID0'', type = ''DINT'', pos1 = 0, pos2 = 0\<rparr>, sample_bit_memory]"

subsection \<open>The checksum in the words of the specification\<close>

text \<open>The lines of the input as \<^verbatim>\<open>getline\<close> reads them, one after the other: without their newlines.\<close>

function input_lines :: "string \<Rightarrow> string list" where
  "input_lines locatedVars =
     (case getline locatedVars of
        None \<Rightarrow> []
      | Some (line, rest) \<Rightarrow> line # input_lines rest)"
  by pat_completeness auto
termination
proof (relation "measure length", goal_cases)
  case 1
  show ?case by simp
next
  case (2 locatedVars parsed line rest)
  then have "locatedVars \<noteq> []" and "rest = drop 1 (dropWhile (\<lambda>c. c \<noteq> NL) locatedVars)"
    by (auto simp: getline_def split: if_splits)
  moreover have "length (dropWhile (\<lambda>c. c \<noteq> NL) locatedVars) \<le> length locatedVars"
    by (rule length_dropWhile_le)
  ultimately show ?case
    by (cases locatedVars) (auto simp: dropWhile_eq_Cons_conv split: if_splits)
qed

declare input_lines.simps [simp del]

text \<open>
  Two lines as the compiler writes them, for \<^verbatim>\<open>%IX0.0\<close> and \<^verbatim>\<open>%IX0.1\<close>, and what \<^verbatim>\<open>generateBody\<close> writes
  to \<^verbatim>\<open>glueVars\<close> and to \<^verbatim>\<open>cout\<close> for them.
\<close>

definition sample_input :: string where
  "sample_input = ''__LOCATED_VAR(BOOL,__IX0_0,I,X,0,0)'' @ [NL]
     @ ''__LOCATED_VAR(BOOL,__IX0_1,I,X,0,1)'' @ [NL]"

definition sample_glue :: string where
  "sample_glue =
     ''void glueVars()'' @ [NL] @ ''{'' @ [NL]
     @ [TAB] @ ''bool_input[0][0] = __IX0_0;'' @ [NL]
     @ [TAB] @ ''bool_input[0][1] = __IX0_1;'' @ [NL]
     @ ''}'' @ [NL, NL]
     @ ''GlueBoolGroup ___IG0 { .index=0, .values={ __IX0_0, __IX0_1, nullptr, nullptr, nullptr, nullptr, nullptr, nullptr, } };'' @ [NL]
     @ ''GlueBoolGroup* __IG0(&___IG0);'' @ [NL]
     @ ''/// The size of the array of glue variables.'' @ [NL]
     @ ''extern std::size_t const OPLCGLUE_GLUE_SIZE(1);'' @ [NL]
     @ ''/// The packed glue variables.'' @ [NL]
     @ ''extern const GlueVariable oplc_glue_vars[] = {'' @ [NL]
     @ ''    { IECLDT_IN, IECLST_BIT, 0, 0, IECVT_BOOL,  __IG0 },'' @ [NL]
     @ ''};'' @ [NL, NL]"

definition sample_log :: string where
  "sample_log =
     ''varName: __IX0_0'' @ [TAB] @ ''varType: BOOL'' @ [NL]
     @ ''varName: __IX0_1'' @ [TAB] @ ''varType: BOOL'' @ [NL]"

text \<open>
  The checksum the specification states: the digest of the concatenation of the raw lines,
  newlines included, which is the digest of the whole input.
\<close>

definition spec_checksum :: "(string \<Rightarrow> md5_byte_t list) \<Rightarrow> string \<Rightarrow> md5_byte_t list" where
  "spec_checksum md5_finish locatedVars = md5_finish locatedVars"

text \<open>The two lines of the scenario of the specification; they have no second comma.\<close>

definition spec_sample_input :: string where
  "spec_sample_input = ''(BOOL,%IX0.0)'' @ [NL] @ ''(BOOL,%IX0.1)'' @ [NL]"

subsection \<open>The parser in the words of the specification\<close>

text \<open>The part of a line that the parser scans: \<^verbatim>\<open>buffer\<close> up to its first NUL.\<close>

definition line_buffer :: "string \<Rightarrow> string" where
  "line_buffer line = take 1024 (c_text line)"

text \<open>
  An array whose string cannot be read because of a cell that was never written, or that
  holds a non-empty string.
\<close>

definition holds_text :: "cells \<Rightarrow> bool" where
  "holds_text a = (c_str a = Inl Uninitialised \<or> (\<exists>s. c_str a = Inr s \<and> s \<noteq> []))"

text \<open>
  The arrays \<^verbatim>\<open>iecVar_name\<close> and \<^verbatim>\<open>iecVar_type\<close> after the first line of the sample input has been
  parsed.
\<close>

definition sample_name_cells :: cells where
  "sample_name_cells = map Some ''__IX0_0'' @ Some NUL # replicate 92 None"

definition sample_type_cells :: cells where
  "sample_type_cells = map Some ''BOOL'' @ Some NUL # replicate 95 None"

section \<open>Theorems\<close>

subsection \<open>Evaluation of the helpers\<close>

lemma to_string_digit [simp]: "n < 10 \<Longrightarrow> to_string n = [''0123456789'' ! n]"
  by (simp add: to_string.simps)

lemma to_string_numeral [simp]:
  "to_string (numeral k) = (if (numeral k :: nat) < 10 then [''0123456789'' ! numeral k]
     else to_string (numeral k div 10) @ [''0123456789'' ! (numeral k mod 10)])"
  by (rule to_string.simps)

lemma to_string_0 [simp]: "to_string 0 = ''0''"
  by (simp add: to_string.simps)

lemma to_string_1 [simp]: "to_string (Suc 0) = ''1''"
  by (simp add: to_string.simps)

lemma string_at_Inr_iff: "(\<exists>c. string_at s i = Inr c) \<longleftrightarrow> i \<le> length s"
  by (auto simp: string_at_def)

subsection \<open>C5: long-word memory and the special-function buffer\<close>

text \<open>
  C5, as amended. For a declaration whose direction flag is \<open>M\<close> and whose size flag is
  \<open>L\<close>, the direct-assignment pass writes one statement: into \<^verbatim>\<open>special_functions\<close> at
  index \<open>pos1 - 1024\<close> exactly when \<open>pos1\<close> exceeds 1023 (is at least 1024, the size of
  the ordinary buffers), and into \<^verbatim>\<open>lint_memory\<close> at index \<open>pos1\<close> otherwise.
\<close>

theorem glueVar_long_word_memory:
  assumes "string_at varName 2 = Inr CHR ''M''" and "string_at varName 3 = Inr CHR ''L''"
  shows "glueVar varName p1 p2 =
           Inr (if 1024 \<le> p1
                then assignment ''special_functions'' (unat p1 - 1024) ''(IEC_LINT *)'' varName
                else assignment ''lint_memory'' (unat p1) ''(IEC_LINT *)'' varName,
                if 8 \<le> p2 then invalid_addressing varName else [])"
proof -
  have "(1023 < p1) = (1024 \<le> p1)"
    by (simp add: word_less_nat_alt word_le_nat_alt) arith
  with assms show ?thesis
    by (simp add: glueVar_def)
qed

theorem glueVar_long_word_memory_witness:
  "string_at ''__ML1025'' 2 = Inr CHR ''M'' \<and> string_at ''__ML1025'' 3 = Inr CHR ''L'' \<and>
   glueVar ''__ML1025'' 1025 0 =
     Inr (TAB # ''special_functions[1] = (IEC_LINT *)__ML1025;'' @ [NL], [])"
proof -
  have m: "string_at ''__ML1025'' 2 = Inr CHR ''M''"
    by (simp add: string_at_def)
  have l: "string_at ''__ML1025'' 3 = Inr CHR ''L''"
    by (simp add: string_at_def)
  show ?thesis
    using m l glueVar_long_word_memory [OF m l, of 1025 0]
    by (simp add: assignment_def c_text_def NUL_def)
qed

text \<open>
  The claim as the specification words it fails at major index 1024, which does not
  exceed 1024 and is routed to the special-function buffer all the same.
\<close>

theorem glueVar_long_word_memory_counterexample:
  "glueVar ''__ML1024'' 1024 0 =
     Inr (TAB # ''special_functions[0] = (IEC_LINT *)__ML1024;'' @ [NL], []) \<and>
   glueVar ''__ML1024'' 1024 0 \<noteq> Inr (spec_long_word_statement ''__ML1024'' 1024, [])"
  by (simp add: glueVar_def string_at_def spec_long_word_statement_def assignment_def
      c_text_def NUL_def)

subsection \<open>C4: the checksum literal\<close>

lemma checksum_loop_short:
  "i \<le> 16 \<Longrightarrow> length digest \<le> 16 \<Longrightarrow> checksum_loop digest i out = Inl OutOfBounds"
proof (induction digest i out rule: checksum_loop.induct)
  case (1 digest i out)
  show ?case
  proof (cases "i < length digest")
    case True
    with 1 show ?thesis
      by (subst checksum_loop.simps) simp
  next
    case False
    with 1 show ?thesis
      by (subst checksum_loop.simps) simp
  qed
qed

text \<open>
  The loop of \<^verbatim>\<open>generateChecksum\<close> reads \<^verbatim>\<open>digest[16]\<close>: on an array of 16 bytes (or fewer)
  the call has no defined result.
\<close>

lemma generateChecksum_reads_past_16:
  "length digest \<le> 16 \<Longrightarrow> generateChecksum digest = Inl OutOfBounds"
  by (simp add: generateChecksum_def checksum_loop_short)

text \<open>On a longer array the loop writes 17 byte pairs, the bytes at indices 0 to 16.\<close>

lemma checksum_loop_pairs:
  "i \<le> 17 \<Longrightarrow> 17 \<le> length digest \<Longrightarrow>
   checksum_loop digest i out = Inr (out @ concat (map hex_pair (take (17 - i) (drop i digest))))"
proof (induction digest i out rule: checksum_loop.induct)
  case (1 digest i out)
  show ?case
  proof (cases "i \<le> 16")
    case True
    then have a: "17 - i = Suc (17 - (i + 1))"
      by simp
    from True 1 have b: "drop i digest = digest ! i # drop (i + 1) digest"
      by (simp add: Cons_nth_drop_Suc)
    from True 1 have "checksum_loop digest (i + 1) (out @ hex_pair (digest ! i)) =
        Inr ((out @ hex_pair (digest ! i)) @
          concat (map hex_pair (take (17 - (i + 1)) (drop (i + 1) digest))))"
      by (intro "1.IH") simp_all
    moreover from True 1 have "checksum_loop digest i out =
        checksum_loop digest (i + 1) (out @ hex_pair (digest ! i))"
      by (subst checksum_loop.simps) simp
    ultimately show ?thesis
      by (simp only: a b take_Suc_Cons list.map concat.simps append_assoc)
  next
    case False
    with 1 show ?thesis
      by (subst checksum_loop.simps) simp
  qed
qed

text \<open>
  C4. The claim is what the code is meant to do and misses by one: the loop condition is
  \<^verbatim>\<open>i <= 16\<close>, so on the 16-byte digest of \<^verbatim>\<open>mainImpl\<close> (here the MD5 digest of the empty
  input) the seventeenth iteration reads \<^verbatim>\<open>digest[16]\<close>, one past the end of the array.
\<close>

theorem generateChecksum_off_by_one:
  "generateChecksum [0xD4, 0x1D, 0x8C, 0xD9, 0x8F, 0x00, 0xB2, 0x04,
                     0xE9, 0x80, 0x09, 0x98, 0xEC, 0xF8, 0x42, 0x7E] = Inl OutOfBounds"
  by (simp add: generateChecksum_reads_past_16)

subsection \<open>The grouping loop and the list it leaves\<close>

lemma map_of_map_assign: "map_of (map_assign items k a) = (map_of items)(k \<mapsto> a)"
  by (induction items) (auto simp: fun_eq_iff)

lemma map_find_map_assign:
  "map_find (map_assign items k a) p = (if p = k then Some a else map_find items p)"
  by (simp add: map_find_def map_of_map_assign)

lemma slot_assign_Inr_iff:
  "(\<exists>items'. slot_assign items p1 p2 nm = Inr items') \<longleftrightarrow> p2 < 8"
  by (auto simp: slot_assign_def Let_def word_less_nat_alt word_le_nat_alt not_le)

lemma map_find_slot_assign:
  assumes "slot_assign items p1 p2 nm = Inr items'"
  shows "map_find items' p =
    (if p = p1 then Some ((case map_find items p1 of None \<Rightarrow> replicate 8 [] | Some a \<Rightarrow> a)
                            [unat p2 := nm])
     else map_find items p)"
  using assms by (auto simp: slot_assign_def Let_def map_find_map_assign split: if_splits)

lemma is_bit_iff: "is_bit v \<longleftrightarrow> 3 < length (name v) \<and> name v ! 3 = CHR ''X''"
  by (auto simp: is_bit_def string_at_def NUL_def)

lemma is_bit_direction: "is_bit v \<Longrightarrow> string_at (name v) 2 = Inr (name v ! 2)"
  by (simp add: is_bit_iff string_at_def)

lemma group_loop_first_of_groups:
  assumes "group_loop vs maps = Inr (vs', maps')"
    and "\<And>c p. (map_find (maps c) p \<noteq> None) = (\<exists>w \<in> set seen. is_bit w \<and> group_key w = (c, p))"
  shows "vs' = first_of_groups seen vs"
  using assms
proof (induction vs arbitrary: maps seen vs' maps')
  case Nil
  then show ?case by simp
next
  case (Cons v vs)
  show ?case
  proof (cases "is_bit v")
    case False
    then obtain s where s: "string_at (name v) 3 = Inr s" "s \<noteq> CHR ''X''"
      using Cons.prems(1) by (auto simp: is_bit_def split: sum.splits)
    with Cons.prems(1) obtain r where r: "group_loop vs maps = Inr (r, maps')" "vs' = v # r"
      by (auto split: sum.splits)
    have "r = first_of_groups (seen @ [v]) vs"
      using r(1) Cons.prems(2) False by (intro Cons.IH) auto
    with r False show ?thesis by simp
  next
    case True
    let ?c = "container_of (name v ! 2)"
    have s: "string_at (name v) 3 = Inr CHR ''X''" "string_at (name v) 2 = Inr (name v ! 2)"
      using True by (simp_all add: is_bit_def is_bit_direction)
    have key: "group_key v = (?c, pos1 v)"
      by (simp add: group_key_def)
    show ?thesis
    proof (cases "map_find (maps ?c) (pos1 v)")
      case None
      with Cons.prems(2) [of ?c "pos1 v"] have new: "\<not> (\<exists>w \<in> set seen. is_bit w \<and> group_key w = group_key v)"
        by (simp add: key)
      from Cons.prems(1) s None obtain items r where
        items: "slot_assign (map_assign (maps ?c) (pos1 v) (replicate 8 [])) (pos1 v) (pos2 v) (name v) = Inr items"
        and r: "group_loop vs (maps(?c := items)) = Inr (r, maps')"
        and vs': "vs' = group_entry v # r"
        by (auto simp: Let_def group_entry_def split: sum.splits)
      have "r = first_of_groups (seen @ [v]) vs"
      proof (rule Cons.IH [OF r])
        fix c p
        show "(map_find ((maps(?c := items)) c) p \<noteq> None) =
          (\<exists>w \<in> set (seen @ [v]). is_bit w \<and> group_key w = (c, p))"
          using Cons.prems(2) [of c p] True key
          by (auto simp: map_find_slot_assign [OF items] map_find_map_assign)
      qed
      with vs' True new show ?thesis by simp
    next
      case (Some a)
      with Cons.prems(2) [of ?c "pos1 v"] have old: "\<exists>w \<in> set seen. is_bit w \<and> group_key w = group_key v"
        by (simp add: key)
      from Cons.prems(1) s Some obtain items where
        items: "slot_assign (maps ?c) (pos1 v) (pos2 v) (name v) = Inr items"
        and r: "group_loop vs (maps(?c := items)) = Inr (vs', maps')"
        by (auto simp: Let_def split: sum.splits)
      have "vs' = first_of_groups (seen @ [v]) vs"
      proof (rule Cons.IH [OF r])
        fix c p
        show "(map_find ((maps(?c := items)) c) p \<noteq> None) =
          (\<exists>w \<in> set (seen @ [v]). is_bit w \<and> group_key w = (c, p))"
          using Cons.prems(2) [of c p] True key Some
          by (auto simp: map_find_slot_assign [OF items])
      qed
      with True old show ?thesis by simp
    qed
  qed
qed

subsection \<open>The maps the grouping loop builds\<close>

lemma group_loop_maps:
  assumes "group_loop vs maps = Inr (vs', maps')"
  shows "map_find (maps' c) p =
    (if members c p vs = [] then map_find (maps c) p
     else Some (fold write_slot (members c p vs)
            (case map_find (maps c) p of None \<Rightarrow> replicate 8 [] | Some a \<Rightarrow> a)))"
  using assms
proof (induction vs arbitrary: maps vs' maps')
  case Nil
  then show ?case by (simp add: members_def)
next
  case (Cons v vs)
  show ?case
  proof (cases "is_bit v")
    case False
    then obtain s where s: "string_at (name v) 3 = Inr s" "s \<noteq> CHR ''X''"
      using Cons.prems(1) by (auto simp: is_bit_def split: sum.splits)
    with Cons.prems(1) obtain r where r: "group_loop vs maps = Inr (r, maps')"
      by (auto split: sum.splits)
    from Cons.IH [OF r] False show ?thesis
      by (simp add: members_def)
  next
    case True
    let ?c = "container_of (name v ! 2)"
    have s: "string_at (name v) 3 = Inr CHR ''X''" "string_at (name v) 2 = Inr (name v ! 2)"
      using True by (simp_all add: is_bit_def is_bit_direction)
    have key: "group_key v = (?c, pos1 v)"
      by (simp add: group_key_def)
    define init where "init = (case map_find (maps ?c) (pos1 v) of None \<Rightarrow> replicate 8 [] | Some a \<Rightarrow> a)"
    from Cons.prems(1) s obtain items r where
      r: "group_loop vs (maps(?c := items)) = Inr (r, maps')"
      and items: "\<And>p. map_find items p = (if p = pos1 v then Some (write_slot v init) else map_find (maps ?c) p)"
      by (auto simp: Let_def init_def write_slot_def map_find_slot_assign map_find_map_assign
          split: sum.splits option.splits)
    show ?thesis
      using Cons.IH [OF r] True key items
      by (auto simp: members_def init_def)
  qed
qed

lemma keys_map_assign:
  "set (map fst (map_assign items k a)) = insert k (set (map fst items))"
proof -
  have "fst ` set (map_assign items k a) = dom (map_of (map_assign items k a))"
    by (simp add: dom_map_of_conv_image_fst)
  also have "\<dots> = insert k (dom (map_of items))"
    by (simp add: map_of_map_assign)
  also have "\<dots> = insert k (fst ` set items)"
    by (simp add: dom_map_of_conv_image_fst)
  finally show ?thesis by simp
qed

lemma sorted_map_assign:
  "sorted_wrt (<) (map fst items) \<Longrightarrow> sorted_wrt (<) (map fst (map_assign items k a))"
proof (induction items)
  case Nil
  then show ?case by simp
next
  case (Cons x items)
  obtain k' a' where x: "x = (k', a')" by (cases x)
  have "set (map fst (map_assign items k a)) = insert k (set (map fst items))"
    by (rule keys_map_assign)
  with Cons x show ?case
    by (auto simp: not_less)
qed

lemma length_map_assign:
  "sorted_wrt (<) (map fst items) \<Longrightarrow>
   length (map_assign items k a) = (if map_find items k = None then Suc (length items) else length items)"
proof (induction items)
  case Nil
  then show ?case by (simp add: map_find_def)
next
  case (Cons x items)
  obtain k' a' where x: "x = (k', a')" by (cases x)
  show ?case
  proof (cases "k < k'")
    case True
    with Cons.prems x have "k \<notin> fst ` set (x # items)"
      by (auto simp: image_iff)
    then have "map_find (x # items) k = None"
      unfolding map_find_def by (simp only: map_of_eq_None_iff not_False_eq_True)
    with True x show ?thesis by simp
  next
    case False
    with Cons x show ?thesis
      by (auto simp: map_find_def)
  qed
qed

lemma sorted_slot_assign:
  "slot_assign items p1 p2 nm = Inr items' \<Longrightarrow> sorted_wrt (<) (map fst items) \<Longrightarrow>
   sorted_wrt (<) (map fst items')"
  by (auto simp: slot_assign_def Let_def sorted_map_assign split: if_splits)

lemma length_slot_assign:
  "slot_assign items p1 p2 nm = Inr items' \<Longrightarrow> sorted_wrt (<) (map fst items) \<Longrightarrow>
   length items' = (if map_find items p1 = None then Suc (length items) else length items)"
  by (auto simp: slot_assign_def Let_def length_map_assign split: if_splits)

lemma sorted_maps_iff: "sorted_maps maps \<longleftrightarrow> (\<forall>c. sorted_wrt (<) (map fst (maps c)))"
proof
  assume a: "sorted_maps maps"
  show "\<forall>c. sorted_wrt (<) (map fst (maps c))"
  proof
    fix c show "sorted_wrt (<) (map fst (maps c))"
      using a by (cases c) (simp_all add: sorted_maps_def)
  qed
qed (simp add: sorted_maps_def)

lemma sorted_maps_upd:
  "sorted_maps maps \<Longrightarrow> sorted_wrt (<) (map fst items) \<Longrightarrow> sorted_maps (maps(c := items))"
  by (simp add: sorted_maps_iff)

lemma groups_total_upd:
  "groups_total (maps(c := items)) + length (maps c) = groups_total maps + length items"
  by (cases c) (simp_all add: groups_total_def)

lemma group_loop_step:
  assumes "group_loop (v # vs) maps = Inr (vs', maps')" and "is_bit v"
  obtains items r where
    "slot_assign (case map_find (maps (container_of (name v ! 2))) (pos1 v) of
        None \<Rightarrow> map_assign (maps (container_of (name v ! 2))) (pos1 v) (replicate 8 [])
      | Some a \<Rightarrow> maps (container_of (name v ! 2))) (pos1 v) (pos2 v) (name v) = Inr items"
    "group_loop vs (maps(container_of (name v ! 2) := items)) = Inr (r, maps')"
    "vs' = (case map_find (maps (container_of (name v ! 2))) (pos1 v) of
        None \<Rightarrow> group_entry v # r | Some a \<Rightarrow> r)"
proof -
  have s: "string_at (name v) 3 = Inr CHR ''X''" "string_at (name v) 2 = Inr (name v ! 2)"
    using assms(2) by (simp_all add: is_bit_def is_bit_direction)
  show thesis
  proof (cases "map_find (maps (container_of (name v ! 2))) (pos1 v)")
    case None
    with assms(1) s that show ?thesis
      by (auto simp: Let_def group_entry_def split: sum.splits)
  next
    case (Some a)
    with assms(1) s that show ?thesis
      by (auto simp: Let_def split: sum.splits)
  qed
qed

lemma group_loop_skip:
  assumes "group_loop (v # vs) maps = Inr (vs', maps')" and "\<not> is_bit v"
  obtains r where "group_loop vs maps = Inr (r, maps')" "vs' = v # r" "3 \<le> length (name v)"
proof -
  from assms obtain s where s: "string_at (name v) 3 = Inr s" "s \<noteq> CHR ''X''"
    by (auto simp: is_bit_def split: sum.splits)
  then have "3 \<le> length (name v)"
    by (auto simp: string_at_def split: if_splits)
  with assms(1) s that show thesis
    by (auto split: sum.splits)
qed

lemma group_loop_sorted:
  assumes "group_loop vs maps = Inr (vs', maps')" and "sorted_maps maps"
  shows "sorted_maps maps'"
  using assms
proof (induction vs arbitrary: maps vs' maps')
  case Nil
  then show ?case by simp
next
  case (Cons v vs)
  show ?case
  proof (cases "is_bit v")
    case False
    with Cons.prems(1) obtain r where "group_loop vs maps = Inr (r, maps')"
      by (rule group_loop_skip)
    with Cons show ?thesis by blast
  next
    case True
    let ?c = "container_of (name v ! 2)"
    from Cons.prems(1) True obtain items r where
      items: "slot_assign (case map_find (maps ?c) (pos1 v) of
        None \<Rightarrow> map_assign (maps ?c) (pos1 v) (replicate 8 [])
      | Some a \<Rightarrow> maps ?c) (pos1 v) (pos2 v) (name v) = Inr items"
      and r: "group_loop vs (maps(?c := items)) = Inr (r, maps')"
      by (rule group_loop_step)
    have "sorted_wrt (<) (map fst (maps ?c))"
      using Cons.prems(2) by (simp add: sorted_maps_iff)
    then have "sorted_wrt (<) (map fst items)"
      using items by (auto intro: sorted_slot_assign sorted_map_assign split: option.splits)
    with Cons.prems(2) have "sorted_maps (maps(?c := items))"
      by (rule sorted_maps_upd)
    with r show ?thesis by (rule Cons.IH)
  qed
qed

lemma group_loop_count:
  assumes "group_loop vs maps = Inr (vs', maps')" and "sorted_maps maps"
  shows "length vs' + groups_total maps = length (filter (\<lambda>v. \<not> is_bit v) vs) + groups_total maps'"
  using assms
proof (induction vs arbitrary: maps vs' maps')
  case Nil
  then show ?case by simp
next
  case (Cons v vs)
  show ?case
  proof (cases "is_bit v")
    case False
    with Cons.prems(1) obtain r where "group_loop vs maps = Inr (r, maps')" "vs' = v # r"
      by (rule group_loop_skip)
    with Cons.IH [of maps r maps'] Cons.prems(2) False show ?thesis by simp
  next
    case True
    let ?c = "container_of (name v ! 2)"
    from Cons.prems(1) True obtain items r where
      items: "slot_assign (case map_find (maps ?c) (pos1 v) of
        None \<Rightarrow> map_assign (maps ?c) (pos1 v) (replicate 8 [])
      | Some a \<Rightarrow> maps ?c) (pos1 v) (pos2 v) (name v) = Inr items"
      and r: "group_loop vs (maps(?c := items)) = Inr (r, maps')"
      and vs': "vs' = (case map_find (maps ?c) (pos1 v) of None \<Rightarrow> group_entry v # r | Some a \<Rightarrow> r)"
      by (rule group_loop_step)
    have sc: "sorted_wrt (<) (map fst (maps ?c))"
      using Cons.prems(2) by (simp add: sorted_maps_iff)
    then have si: "sorted_wrt (<) (map fst items)"
      using items by (auto intro: sorted_slot_assign sorted_map_assign split: option.splits)
    with Cons.prems(2) have "sorted_maps (maps(?c := items))"
      by (rule sorted_maps_upd)
    with r have ih: "length r + groups_total (maps(?c := items)) =
        length (filter (\<lambda>v. \<not> is_bit v) vs) + groups_total maps'"
      by (rule Cons.IH)
    have len: "length items = (case map_find (maps ?c) (pos1 v) of
        None \<Rightarrow> Suc (length (maps ?c)) | Some a \<Rightarrow> length (maps ?c))"
    proof (cases "map_find (maps ?c) (pos1 v)")
      case None
      with items sc show ?thesis
        by (simp add: length_slot_assign sorted_map_assign map_find_map_assign length_map_assign)
    next
      case (Some a)
      with items sc show ?thesis
        by (simp add: length_slot_assign)
    qed
    from ih groups_total_upd [of maps ?c items] len vs' True show ?thesis
      by (auto split: option.splits)
  qed
qed

subsection \<open>Slots, keys and the number of groups\<close>

lemma keys_eq_dom: "set (map fst items) = {p. map_find items p \<noteq> None}"
  by (auto simp: map_find_def map_of_eq_None_iff image_iff)

lemma group_loop_keys:
  assumes "group_loop vs maps = Inr (vs', maps')"
  shows "set (map fst (maps' c)) = set (map fst (maps c)) \<union> {p. members c p vs \<noteq> []}"
  unfolding keys_eq_dom using group_loop_maps [OF assms, of c] by auto

lemma length_fold_write_slot [simp]: "length (fold write_slot ms a) = length a"
  by (induction ms arbitrary: a) (simp_all add: write_slot_def)

lemma write_slot_nth:
  "k < length a \<Longrightarrow> write_slot m a ! k = (if unat (pos2 m) = k then name m else a ! k)"
  by (simp add: write_slot_def nth_list_update)

lemma fold_write_slot_nth:
  "k < length a \<Longrightarrow>
   fold write_slot ms a ! k =
     (case find (\<lambda>v. unat (pos2 v) = k) (rev ms) of None \<Rightarrow> a ! k | Some v \<Rightarrow> name v)"
proof (induction ms rule: rev_induct)
  case Nil
  then show ?case by simp
next
  case (snoc m ms)
  then show ?case
    by (simp add: write_slot_nth)
qed

lemma find_members:
  "find (\<lambda>v. unat (pos2 v) = k) (rev (members c p vars)) =
   find (\<lambda>v. is_bit v \<and> group_key v = (c, p) \<and> unat (pos2 v) = k) (rev vars)"
proof (induction vars rule: rev_induct)
  case Nil
  then show ?case by (simp add: members_def)
next
  case (snoc v vars)
  then show ?case by (simp add: members_def)
qed

lemma fold_write_slot_slots:
  "fold write_slot (members c p vars) (replicate 8 []) = map (slot_of c p vars) [0..<8]"
proof (rule nth_equalityI)
  show "length (fold write_slot (members c p vars) (replicate 8 [])) = length (map (slot_of c p vars) [0..<8])"
    by simp
next
  fix k assume "k < length (fold write_slot (members c p vars) (replicate 8 []))"
  then have k: "k < 8" by simp
  then have "map (slot_of c p vars) [0..<8] ! k = slot_of c p vars k"
    by (simp del: upt_Suc)
  moreover from k have "fold write_slot (members c p vars) (replicate 8 []) ! k = slot_of c p vars k"
    by (simp add: fold_write_slot_nth find_members slot_of_def split: option.splits)
  ultimately show "fold write_slot (members c p vars) (replicate 8 []) ! k = map (slot_of c p vars) [0..<8] ! k"
    by simp
qed

lemma group_loop_slots:
  assumes "group_loop vars (\<lambda>c. []) = Inr (vars', maps)"
  shows "map_find (maps c) p =
    (if members c p vars = [] then None else Some (map (slot_of c p vars) [0..<8]))"
  using group_loop_maps [OF assms, of c p]
  by (simp add: fold_write_slot_slots map_find_def)

lemma group_loop_ok:
  assumes "group_loop vs maps = Inr (vs', maps')" and "v \<in> set vs"
  shows "3 \<le> length (name v) \<and> (is_bit v \<longrightarrow> pos2 v < 8)"
  using assms
proof (induction vs arbitrary: maps vs' maps')
  case Nil
  then show ?case by simp
next
  case (Cons w vs)
  show ?case
  proof (cases "is_bit w")
    case False
    with Cons.prems(1) obtain r where "group_loop vs maps = Inr (r, maps')" "3 \<le> length (name w)"
      by (rule group_loop_skip)
    with Cons False show ?thesis by auto
  next
    case True
    let ?c = "container_of (name w ! 2)"
    from Cons.prems(1) True obtain items r where
      items: "slot_assign (case map_find (maps ?c) (pos1 w) of
        None \<Rightarrow> map_assign (maps ?c) (pos1 w) (replicate 8 [])
      | Some a \<Rightarrow> maps ?c) (pos1 w) (pos2 w) (name w) = Inr items"
      and r: "group_loop vs (maps(?c := items)) = Inr (r, maps')"
      by (rule group_loop_step)
    from items have "pos2 w < 8"
      using slot_assign_Inr_iff by blast
    moreover from True have "3 \<le> length (name w)"
      by (simp add: is_bit_iff)
    ultimately show ?thesis
      using Cons.IH [OF r] Cons.prems(2) by auto
  qed
qed

lemma group_loop_total:
  assumes "\<And>v. v \<in> set vs \<Longrightarrow> 3 \<le> length (name v) \<and> (is_bit v \<longrightarrow> pos2 v < 8)"
  shows "\<exists>r. group_loop vs maps = Inr r"
  using assms
proof (induction vs arbitrary: maps)
  case Nil
  then show ?case by simp
next
  case (Cons w vs)
  have w: "3 \<le> length (name w)" "is_bit w \<longrightarrow> pos2 w < 8"
    using Cons.prems [of w] by simp_all
  have rest: "\<exists>r. group_loop vs m = Inr r" for m
    using Cons.prems by (intro Cons.IH) simp
  show ?case
  proof (cases "is_bit w")
    case False
    from w obtain s where s: "string_at (name w) 3 = Inr s"
      using string_at_Inr_iff [of "name w" 3] by auto
    with False have "s \<noteq> CHR ''X''"
      by (simp add: is_bit_def)
    with s rest [of maps] show ?thesis
      by auto
  next
    case True
    let ?c = "container_of (name w ! 2)"
    have s: "string_at (name w) 3 = Inr CHR ''X''" "string_at (name w) 2 = Inr (name w ! 2)"
      using True by (simp_all add: is_bit_def is_bit_direction)
    from True w have p2: "pos2 w < 8" by simp
    show ?thesis
    proof (cases "map_find (maps ?c) (pos1 w)")
      case None
      from p2 obtain items where
        "slot_assign (map_assign (maps ?c) (pos1 w) (replicate 8 [])) (pos1 w) (pos2 w) (name w) = Inr items"
        using slot_assign_Inr_iff by blast
      with s None rest [of "maps(?c := items)"] show ?thesis
        by (auto simp: Let_def)
    next
      case (Some a)
      from p2 obtain items where
        "slot_assign (maps ?c) (pos1 w) (pos2 w) (name w) = Inr items"
        using slot_assign_Inr_iff by blast
      with s Some rest [of "maps(?c := items)"] show ?thesis
        by (auto simp: Let_def)
    qed
  qed
qed

lemma first_of_groups_set:
  "set (first_of_groups seen vs) \<subseteq> {v \<in> set vs. \<not> is_bit v} \<union> group_entry ` {v \<in> set vs. is_bit v}"
  by (induction vs arbitrary: seen) auto

lemma length_name_group_entry: "3 \<le> length (name (group_entry v))"
  by (simp add: group_entry_def)

lemma glue_row_total:
  assumes "3 \<le> length (name v)"
  shows "\<exists>row. glue_row v = Inr row"
proof -
  from assms obtain d s where "string_at (name v) 2 = Inr d" "string_at (name v) 3 = Inr s"
    using string_at_Inr_iff [of "name v" 2] string_at_Inr_iff [of "name v" 3] by auto
  then show ?thesis
    by (simp add: glue_row_def)
qed

lemma glue_rows_total:
  assumes "\<And>v. v \<in> set vs \<Longrightarrow> 3 \<le> length (name v)"
  shows "\<exists>rows. glue_rows vs = Inr rows \<and> list_all2 (\<lambda>v row. glue_row v = Inr row) vs rows"
  using assms
proof (induction vs)
  case Nil
  then show ?case by simp
next
  case (Cons v vs)
  then obtain rows where rows: "glue_rows vs = Inr rows" "list_all2 (\<lambda>v row. glue_row v = Inr row) vs rows"
    by auto
  from Cons.prems [of v] obtain row where "glue_row v = Inr row"
    using glue_row_total [of v] by auto
  with rows show ?case by simp
qed

lemma sorted_maps_empty: "sorted_maps (\<lambda>c. [])"
  by (simp add: sorted_maps_def)

lemma members_empty_iff:
  "members c p vars \<noteq> [] \<longleftrightarrow> (\<exists>v \<in> set vars. is_bit v \<and> group_key v = (c, p))"
  by (auto simp: members_def filter_empty_conv)

lemma group_loop_distinct:
  assumes "group_loop vars (\<lambda>c. []) = Inr (vars', maps)"
  shows "distinct (map fst (maps c))"
proof -
  have "sorted_maps maps"
    using assms sorted_maps_empty by (rule group_loop_sorted)
  then have "sorted_wrt (<) (map fst (maps c))"
    by (simp add: sorted_maps_iff)
  then show ?thesis
    by (simp add: strict_sorted_iff)
qed

lemma group_loop_entry:
  assumes "group_loop vars (\<lambda>c. []) = Inr (vars', maps)" and "g \<in> set (maps c)"
  shows "members c (fst g) vars \<noteq> [] \<and> snd g = map (slot_of c (fst g) vars) [0..<8]"
proof -
  have "map_of (maps c) (fst g) = Some (snd g)"
    using group_loop_distinct [OF assms(1), of c] assms(2) by simp
  with group_loop_slots [OF assms(1), of c "fst g"] show ?thesis
    by (simp add: map_find_def split: if_splits)
qed

lemma group_loop_nonempty:
  assumes "group_loop vars (\<lambda>c. []) = Inr (vars', maps)" and "g \<in> set (maps c)"
  shows "nonempty_group g"
proof -
  from group_loop_entry [OF assms] have ms: "members c (fst g) vars \<noteq> []"
    and g: "snd g = map (slot_of c (fst g) vars) [0..<8]"
    by simp_all
  from ms obtain m where m: "m \<in> set vars" "is_bit m" "group_key m = (c, fst g)"
    by (auto simp: members_empty_iff)
  with group_loop_ok [OF assms(1), of m] have k: "unat (pos2 m) < 8"
    by (simp add: word_less_nat_alt)
  let ?P = "\<lambda>v. is_bit v \<and> group_key v = (c, fst g) \<and> unat (pos2 v) = unat (pos2 m)"
  from m have "\<exists>v \<in> set (rev vars). ?P v"
    by auto
  then obtain v where v: "find ?P (rev vars) = Some v"
    by (cases "find ?P (rev vars)") (auto simp: find_None_iff)
  then have "is_bit v"
    by (auto simp: find_Some_iff)
  then have "name v \<noteq> []"
    by (auto simp: is_bit_iff)
  with v have "slot_of c (fst g) vars (unat (pos2 m)) \<noteq> []"
    by (simp add: slot_of_def)
  moreover from k have "slot_of c (fst g) vars (unat (pos2 m)) \<in> set (snd g)"
    unfolding g by (simp del: upt_Suc)
  ultimately show ?thesis
    unfolding nonempty_group_def by blast
qed

lemma group_loop_length_keys:
  assumes "group_loop vars (\<lambda>c. []) = Inr (vars', maps)"
  shows "length (maps c) = card {p. members c p vars \<noteq> []}"
proof -
  have "length (maps c) = length (map fst (maps c))"
    by simp
  also have "\<dots> = card (set (map fst (maps c)))"
    using group_loop_distinct [OF assms, of c] by (simp only: distinct_card)
  also have "set (map fst (maps c)) = {p. members c p vars \<noteq> []}"
    using group_loop_keys [OF assms, of c] by simp
  finally show ?thesis .
qed

lemma group_keys_split:
  "{group_key v |v. v \<in> set vars \<and> is_bit v} =
     Pair inputs ` {p. members inputs p vars \<noteq> []}
     \<union> Pair outputs ` {p. members outputs p vars \<noteq> []}
     \<union> Pair memory ` {p. members memory p vars \<noteq> []}" (is "?K = ?R")
proof (rule set_eqI)
  fix x :: "container \<times> uint16_t"
  obtain c p where x: "x = (c, p)" by (cases x)
  have "x \<in> ?K \<longleftrightarrow> members c p vars \<noteq> []"
    unfolding x members_empty_iff by (auto intro: sym)
  also have "\<dots> \<longleftrightarrow> x \<in> ?R"
    unfolding x by (cases c) auto
  finally show "x \<in> ?K \<longleftrightarrow> x \<in> ?R" .
qed

lemma group_loop_groups_total:
  assumes "group_loop vars (\<lambda>c. []) = Inr (vars', maps)"
  shows "groups_total maps = card {group_key v |v. v \<in> set vars \<and> is_bit v}"
proof -
  have fin: "finite {p. members c p vars \<noteq> []}" for c
    by simp
  have card_c: "card (Pair c ` {p. members c p vars \<noteq> []}) = length (maps c)" for c
    by (simp add: card_image inj_on_def group_loop_length_keys [OF assms])
  have "card {group_key v |v. v \<in> set vars \<and> is_bit v} =
      card (Pair inputs ` {p. members inputs p vars \<noteq> []}
        \<union> Pair outputs ` {p. members outputs p vars \<noteq> []})
      + card (Pair memory ` {p. members memory p vars \<noteq> []})"
    unfolding group_keys_split by (rule card_Un_disjoint) (use fin in auto)
  also have "card (Pair inputs ` {p. members inputs p vars \<noteq> []}
        \<union> Pair outputs ` {p. members outputs p vars \<noteq> []}) =
      card (Pair inputs ` {p. members inputs p vars \<noteq> []})
      + card (Pair outputs ` {p. members outputs p vars \<noteq> []})"
    by (rule card_Un_disjoint) (use fin in auto)
  finally show ?thesis
    by (simp add: card_c groups_total_def)
qed

lemma generateBoolGroups_Inr:
  assumes "generateBoolGroups vars = Inr (text, vars')"
  obtains maps where "group_loop vars (\<lambda>c. []) = Inr (vars', maps)"
    "text = generateBoolGroups_items CHR ''I'' (maps inputs)
          @ generateBoolGroups_items CHR ''Q'' (maps outputs)
          @ generateBoolGroups_items CHR ''M'' (maps memory)"
  using assms by (auto simp: generateBoolGroups_def split: sum.splits)

lemma generateBoolGroups_items_concat:
  "generateBoolGroups_items direction items = concat (map (group_constant direction) items)"
  by (simp add: generateBoolGroups_items_def)

subsection \<open>C1, C2, C8, C10: the list, the table and the constants after grouping\<close>

lemma replicate_8: "replicate 8 x = [x, x, x, x, x, x, x, x]"
  by (simp add: numeral_eq_Suc)

lemma generateBoolGroups_sample:
  "generateBoolGroups sample_vars = Inr (sample_groups_text, sample_grouped)"
  by (simp add: sample_vars_def sample_grouped_def sample_groups_text_def generateBoolGroups_def
      string_at_def map_find_def slot_assign_def container_of_def generateBoolGroups_items_def
      group_constant_def NUL_def replicate_8)

text \<open>
  C1. \<^verbatim>\<open>generateBoolGroups\<close> has a defined result exactly on the lists in which every name has
  at least three characters and every bit-addressed declaration has a minor index below 8,
  and then the list it leaves is the list the specification describes
  (\<open>first_of_groups\<close>): the declarations that are not bit-addressed are there unchanged, each
  key (direction, major index) of the bit-addressed ones is represented by its first
  declaration alone, under the name \<^verbatim>\<open>__<direction>G<majorIndex>\<close> (the synthetic identifier
  with the prefix all located variables carry) and with minor index 0, every later
  declaration of the key is gone, and the order of the list is kept.
\<close>

theorem generateBoolGroups_first_of_groups:
  "case generateBoolGroups vars of
     Inl e \<Rightarrow> \<not> well_addressed vars
   | Inr (text, vars') \<Rightarrow> well_addressed vars \<and> vars' = first_of_groups [] vars"
proof (cases "generateBoolGroups vars")
  case (Inl e)
  have "\<not> well_addressed vars"
  proof
    assume "well_addressed vars"
    then obtain r where "group_loop vars (\<lambda>c. []) = Inr r"
      using group_loop_total [of vars "\<lambda>c. []"] by (auto simp: well_addressed_def)
    with Inl show False
      by (auto simp: generateBoolGroups_def split: sum.splits prod.splits)
  qed
  with Inl show ?thesis
    by simp
next
  case (Inr r)
  obtain out vars' where r: "r = (out, vars')"
    by (cases r)
  with Inr obtain maps where loop: "group_loop vars (\<lambda>c. []) = Inr (vars', maps)"
    by (auto elim: generateBoolGroups_Inr)
  then have "vars' = first_of_groups [] vars"
    by (rule group_loop_first_of_groups) (simp add: map_find_def)
  moreover have "well_addressed vars"
    using group_loop_ok [OF loop] by (simp add: well_addressed_def)
  ultimately show ?thesis
    using Inr r by simp
qed

theorem generateBoolGroups_first_of_groups_witness:
  "generateBoolGroups sample_vars = Inr (sample_groups_text, sample_grouped) \<and>
   well_addressed sample_vars \<and> first_of_groups [] sample_vars = sample_grouped"
  using generateBoolGroups_first_of_groups [of sample_vars] generateBoolGroups_sample
  by simp

lemma first_of_groups_sample: "first_of_groups [] sample_vars = sample_grouped"
  by (simp add: sample_vars_def sample_grouped_def is_bit_def group_key_def group_entry_def
      string_at_def container_of_def NUL_def)

lemma group_keys_of_container:
  "{p. members c p vars \<noteq> []} = {pos1 v |v. v \<in> set vars \<and> is_bit v \<and> container_of (name v ! 2) = c}"
  by (auto simp: members_empty_iff group_key_def)

lemma string_at_c_str: "i \<le> length s \<Longrightarrow> string_at s i = Inr ((s @ [NUL]) ! i)"
  by (auto simp: string_at_def nth_append)

lemma glue_row_text:
  assumes "3 \<le> length (name v)"
  shows "glue_row v =
    Inr (''    { IECLDT_'' @ fromDirectionFlag (name v ! 2)
         @ '', IECLST_'' @ fromSizeFlag ((name v @ [NUL]) ! 3)
         @ '', '' @ to_string (unat (pos1 v)) @ '', '' @ to_string (unat (pos2 v))
         @ '', IECVT_'' @ type v @ '',  '' @ name v @ '' },'' @ [NL])"
proof -
  from assms have "string_at (name v) 2 = Inr (name v ! 2)"
    by (simp add: string_at_def)
  moreover from assms have "string_at (name v) 3 = Inr ((name v @ [NUL]) ! 3)"
    by (simp add: string_at_c_str)
  ultimately show ?thesis
    by (simp add: glue_row_def)
qed

lemma glue_rows_map:
  assumes "\<And>v. v \<in> set vs \<Longrightarrow> 3 \<le> length (name v)"
  shows "glue_rows vs = Inr (map (\<lambda>v. projr (glue_row v)) vs)
       \<and> (\<forall>v \<in> set vs. glue_row v = Inr (projr (glue_row v)))"
  using assms
proof (induction vs)
  case Nil
  then show ?case by simp
next
  case (Cons v vs)
  from Cons.prems [of v] obtain row where "glue_row v = Inr row"
    using glue_row_total [of v] by auto
  with Cons show ?case
    by simp
qed

lemma grouped_names:
  assumes loop: "group_loop vars (\<lambda>c. []) = Inr (vars', maps)" and "v \<in> set vars'"
  shows "3 \<le> length (name v)"
proof -
  from loop have vars': "vars' = first_of_groups [] vars"
    by (rule group_loop_first_of_groups) (simp add: map_find_def)
  from assms(2) first_of_groups_set [of "[]" vars]
  consider "v \<in> set vars" | w where "v = group_entry w"
    unfolding vars' by auto
  then show ?thesis
    using group_loop_ok [OF loop] length_name_group_entry by cases auto
qed

lemma grouped_table_text:
  assumes loop: "group_loop vars (\<lambda>c. []) = Inr (vars', maps)"
  shows "generateIntegratedGlue vars' =
    Inr (''/// The size of the array of glue variables.'' @ [NL]
         @ ''extern std::size_t const OPLCGLUE_GLUE_SIZE('' @ to_string (length vars') @ '');'' @ [NL]
         @ ''/// The packed glue variables.'' @ [NL]
         @ ''extern const GlueVariable oplc_glue_vars[] = {'' @ [NL]
         @ concat (map (\<lambda>v. ''    { IECLDT_'' @ fromDirectionFlag (name v ! 2)
              @ '', IECLST_'' @ fromSizeFlag ((name v @ [NUL]) ! 3)
              @ '', '' @ to_string (unat (pos1 v)) @ '', '' @ to_string (unat (pos2 v))
              @ '', IECVT_'' @ type v @ '',  '' @ name v @ '' },'' @ [NL]) vars')
         @ ''};'' @ [NL, NL])"
proof -
  have names: "3 \<le> length (name v)" if "v \<in> set vars'" for v
    using loop that by (rule grouped_names)
  then have "glue_rows vars' = Inr (map (\<lambda>v. projr (glue_row v)) vars')"
    using glue_rows_map [of vars'] by blast
  moreover have "map (\<lambda>v. projr (glue_row v)) vars' =
      map (\<lambda>v. ''    { IECLDT_'' @ fromDirectionFlag (name v ! 2)
              @ '', IECLST_'' @ fromSizeFlag ((name v @ [NUL]) ! 3)
              @ '', '' @ to_string (unat (pos1 v)) @ '', '' @ to_string (unat (pos2 v))
              @ '', IECVT_'' @ type v @ '',  '' @ name v @ '' },'' @ [NL]) vars'"
    by (rule map_cong [OF refl]) (simp add: glue_row_text names)
  ultimately show ?thesis
    by (simp add: generateIntegratedGlue_def glue_table_head_def)
qed

text \<open>
  C2. The table written by \<^verbatim>\<open>generateIntegratedGlue\<close> after the grouping is the four lines of
  its head, one row per declaration of the list as the grouping leaves it, and the closing
  line. The row of a declaration is \<^verbatim>\<open>{ IECLDT_<direction>, IECLST_<size>, <pos1>, <pos2>,
  IECVT_<type>,  <name> },\<close>. The number of rows is the number of declarations that are not
  bit-addressed plus the number of groups in the three maps, which is the number of keys
  among the bit-addressed declarations; every such group has a slot that holds a name. The
  same number is written between the parentheses of \<^verbatim>\<open>OPLCGLUE_GLUE_SIZE(...)\<close> in the head
  of the table.
\<close>

theorem glue_table_row_count:
  assumes "generateBoolGroups vars = Inr (text, vars')"
  shows "\<exists>rows maps.
      group_loop vars (\<lambda>c. []) = Inr (vars', maps)
    \<and> generateIntegratedGlue vars' =
        Inr (''/// The size of the array of glue variables.'' @ [NL]
             @ ''extern std::size_t const OPLCGLUE_GLUE_SIZE('' @ to_string (length rows) @ '');''
             @ [NL]
             @ ''/// The packed glue variables.'' @ [NL]
             @ ''extern const GlueVariable oplc_glue_vars[] = {'' @ [NL]
             @ concat rows
             @ ''};'' @ [NL, NL])
    \<and> rows = map (\<lambda>v. ''    { IECLDT_'' @ fromDirectionFlag (name v ! 2)
                    @ '', IECLST_'' @ fromSizeFlag ((name v @ [NUL]) ! 3)
                    @ '', '' @ to_string (unat (pos1 v)) @ '', '' @ to_string (unat (pos2 v))
                    @ '', IECVT_'' @ type v @ '',  '' @ name v @ '' },'' @ [NL]) vars'
    \<and> list_all (\<lambda>v. 3 \<le> length (name v)) vars'
    \<and> length rows = length (filter (\<lambda>v. \<not> is_bit v) vars) + groups_total maps
    \<and> groups_total maps = card {group_key v |v. v \<in> set vars \<and> is_bit v}
    \<and> (\<forall>c. list_all nonempty_group (maps c))"
proof -
  from assms obtain maps where loop: "group_loop vars (\<lambda>c. []) = Inr (vars', maps)"
    by (rule generateBoolGroups_Inr)
  let ?rows = "map (\<lambda>v. ''    { IECLDT_'' @ fromDirectionFlag (name v ! 2)
                    @ '', IECLST_'' @ fromSizeFlag ((name v @ [NUL]) ! 3)
                    @ '', '' @ to_string (unat (pos1 v)) @ '', '' @ to_string (unat (pos2 v))
                    @ '', IECVT_'' @ type v @ '',  '' @ name v @ '' },'' @ [NL]) vars'"
  have table: "generateIntegratedGlue vars' =
        Inr (''/// The size of the array of glue variables.'' @ [NL]
             @ ''extern std::size_t const OPLCGLUE_GLUE_SIZE('' @ to_string (length ?rows) @ '');''
             @ [NL]
             @ ''/// The packed glue variables.'' @ [NL]
             @ ''extern const GlueVariable oplc_glue_vars[] = {'' @ [NL]
             @ concat ?rows
             @ ''};'' @ [NL, NL])"
    using grouped_table_text [OF loop] by simp
  have names: "list_all (\<lambda>v. 3 \<le> length (name v)) vars'"
    using grouped_names [OF loop] by (simp add: list_all_iff)
  have "length vars' + groups_total (\<lambda>c. []) =
      length (filter (\<lambda>v. \<not> is_bit v) vars) + groups_total maps"
    using loop sorted_maps_empty by (rule group_loop_count)
  then have count: "length ?rows = length (filter (\<lambda>v. \<not> is_bit v) vars) + groups_total maps"
    by (simp add: groups_total_def)
  have "list_all nonempty_group (maps c)" for c
    using group_loop_nonempty [OF loop] by (simp add: list_all_iff)
  with loop table names count group_loop_groups_total [OF loop] show ?thesis
    by blast
qed

theorem glue_table_row_count_witness:
  "generateBoolGroups sample_vars = Inr (sample_groups_text, sample_grouped)
   \<and> generateIntegratedGlue sample_grouped =
     Inr (''/// The size of the array of glue variables.'' @ [NL]
          @ ''extern std::size_t const OPLCGLUE_GLUE_SIZE(4);'' @ [NL]
          @ ''/// The packed glue variables.'' @ [NL]
          @ ''extern const GlueVariable oplc_glue_vars[] = {'' @ [NL]
          @ ''    { IECLDT_IN, IECLST_BIT, 0, 0, IECVT_BOOL,  __IG0 },'' @ [NL]
          @ ''    { IECLDT_OUT, IECLST_BYTE, 3, 0, IECVT_BYTE,  __QB3 },'' @ [NL]
          @ ''    { IECLDT_OUT, IECLST_BIT, 2, 0, IECVT_BOOL,  __QG2 },'' @ [NL]
          @ ''    { IECLDT_OUT, IECLST_BIT, 1, 0, IECVT_BOOL,  __QG1 },'' @ [NL]
          @ ''};'' @ [NL, NL])
   \<and> length (filter (\<lambda>v. \<not> is_bit v) sample_vars) = 1
   \<and> card {group_key v |v. v \<in> set sample_vars \<and> is_bit v} = 3"
proof -
  from glue_table_row_count [OF generateBoolGroups_sample]
  obtain rows maps where
    table: "generateIntegratedGlue sample_grouped =
        Inr (''/// The size of the array of glue variables.'' @ [NL]
             @ ''extern std::size_t const OPLCGLUE_GLUE_SIZE('' @ to_string (length rows) @ '');''
             @ [NL]
             @ ''/// The packed glue variables.'' @ [NL]
             @ ''extern const GlueVariable oplc_glue_vars[] = {'' @ [NL]
             @ concat rows
             @ ''};'' @ [NL, NL])"
    and rows: "rows = map (\<lambda>v. ''    { IECLDT_'' @ fromDirectionFlag (name v ! 2)
                    @ '', IECLST_'' @ fromSizeFlag ((name v @ [NUL]) ! 3)
                    @ '', '' @ to_string (unat (pos1 v)) @ '', '' @ to_string (unat (pos2 v))
                    @ '', IECVT_'' @ type v @ '',  '' @ name v @ '' },'' @ [NL]) sample_grouped"
    and count: "length rows = length (filter (\<lambda>v. \<not> is_bit v) sample_vars) + groups_total maps"
    and groups: "groups_total maps = card {group_key v |v. v \<in> set sample_vars \<and> is_bit v}"
    by blast
  have rows': "rows =
      [''    { IECLDT_IN, IECLST_BIT, 0, 0, IECVT_BOOL,  __IG0 },'' @ [NL],
       ''    { IECLDT_OUT, IECLST_BYTE, 3, 0, IECVT_BYTE,  __QB3 },'' @ [NL],
       ''    { IECLDT_OUT, IECLST_BIT, 2, 0, IECVT_BOOL,  __QG2 },'' @ [NL],
       ''    { IECLDT_OUT, IECLST_BIT, 1, 0, IECVT_BOOL,  __QG1 },'' @ [NL]]"
    unfolding rows by (simp add: sample_grouped_def fromDirectionFlag_def fromSizeFlag_def)
  have nonbit: "length (filter (\<lambda>v. \<not> is_bit v) sample_vars) = 1"
    by (simp add: sample_vars_def is_bit_def string_at_def)
  from table have "generateIntegratedGlue sample_grouped =
     Inr (''/// The size of the array of glue variables.'' @ [NL]
          @ ''extern std::size_t const OPLCGLUE_GLUE_SIZE(4);'' @ [NL]
          @ ''/// The packed glue variables.'' @ [NL]
          @ ''extern const GlueVariable oplc_glue_vars[] = {'' @ [NL]
          @ ''    { IECLDT_IN, IECLST_BIT, 0, 0, IECVT_BOOL,  __IG0 },'' @ [NL]
          @ ''    { IECLDT_OUT, IECLST_BYTE, 3, 0, IECVT_BYTE,  __QB3 },'' @ [NL]
          @ ''    { IECLDT_OUT, IECLST_BIT, 2, 0, IECVT_BOOL,  __QG2 },'' @ [NL]
          @ ''    { IECLDT_OUT, IECLST_BIT, 1, 0, IECVT_BOOL,  __QG1 },'' @ [NL]
          @ ''};'' @ [NL, NL])"
    by (simp add: rows')
  moreover from count groups nonbit rows' have "card {group_key v |v. v \<in> set sample_vars \<and> is_bit v} = 3"
    by simp
  ultimately show ?thesis
    using generateBoolGroups_sample nonbit by simp
qed

lemma find_append_none: "\<forall>x \<in> set xs. \<not> P x \<Longrightarrow> find P (xs @ ys) = find P ys"
  by (induction xs) auto

lemma slot_of_last:
  assumes "vars = pre @ b # post" and "is_bit b" and "group_key b = (c, p)"
    and "\<forall>w \<in> set post. \<not> (is_bit w \<and> group_key w = (c, p) \<and> pos2 w = pos2 b)"
  shows "slot_of c p vars (unat (pos2 b)) = name b"
proof -
  let ?P = "\<lambda>v. is_bit v \<and> group_key v = (c, p) \<and> unat (pos2 v) = unat (pos2 b)"
  have "\<forall>x \<in> set (rev post). \<not> ?P x"
    using assms(4) by (auto simp: word_unat_eq_iff)
  then have "find ?P (rev post @ b # rev pre) = find ?P (b # rev pre)"
    by (rule find_append_none)
  with assms(1-3) show ?thesis
    by (simp add: slot_of_def)
qed

lemma find_SomeD: "find P xs = Some x \<Longrightarrow> P x \<and> x \<in> set xs"
  by (induction xs) (auto split: if_splits)

lemma group_constant_text:
  "group_constant d g =
     ''GlueBoolGroup ___'' @ [d] @ ''G'' @ to_string (unat (fst g))
     @ '' { .index='' @ to_string (unat (fst g)) @ '', .values={ ''
     @ concat (map (\<lambda>s. if s = [] then ''nullptr, '' else s @ '', '') (snd g))
     @ ''} };'' @ [NL]
     @ ''GlueBoolGroup* __'' @ [d] @ ''G'' @ to_string (unat (fst g))
     @ ''(&___'' @ [d] @ ''G'' @ to_string (unat (fst g)) @ '');'' @ [NL]"
  by (simp add: group_constant_def Let_def)

lemma group_loop_entries:
  assumes "group_loop vars (\<lambda>c. []) = Inr (vars', maps)"
  shows "maps c = map (\<lambda>p. (p, map (slot_of c p vars) [0..<8])) (map fst (maps c))"
proof -
  have "map (\<lambda>g. (fst g, map (slot_of c (fst g) vars) [0..<8])) (maps c) = map (\<lambda>g. g) (maps c)"
  proof (rule map_cong [OF refl])
    fix g assume "g \<in> set (maps c)"
    from group_loop_entry [OF assms this]
    show "(fst g, map (slot_of c (fst g) vars) [0..<8]) = g"
      by (cases g) simp
  qed
  then show ?thesis
    by (simp add: comp_def)
qed

lemma slot_of_cases:
  "slot_of c p vars k = [] \<or>
   (\<exists>v. find (\<lambda>v. is_bit v \<and> group_key v = (c, p) \<and> unat (pos2 v) = k) (rev vars) = Some v
        \<and> slot_of c p vars k = name v)"
  by (auto simp: slot_of_def split: option.splits)

lemma find_append_Some:
  "find P (xs @ ys) = Some v \<Longrightarrow> \<exists>x \<in> set xs. P x \<Longrightarrow> find P xs = Some v"
  by (induction xs) (auto split: if_splits)

lemma earlier_name_absent:
  assumes vars: "vars = pre @ a # mid @ b # post"
    and a: "is_bit a" "group_key a = (c, p)"
    and b: "is_bit b" "group_key b = (c, p)" "pos2 a = pos2 b"
    and others: "\<forall>w \<in> set (pre @ mid @ b # post).
                   is_bit w \<and> group_key w = (c, p) \<longrightarrow> name w \<noteq> name a"
  shows "name a \<notin> set (map (slot_of c p vars) [0..<8])"
proof
  assume "name a \<in> set (map (slot_of c p vars) [0..<8])"
  then obtain k where k: "slot_of c p vars k = name a"
    by auto
  from a(1) have "name a \<noteq> []"
    by (auto simp: is_bit_iff)
  let ?P = "\<lambda>v. is_bit v \<and> group_key v = (c, p) \<and> unat (pos2 v) = k"
  from k \<open>name a \<noteq> []\<close> slot_of_cases [of c p vars k]
  obtain v where v: "find ?P (rev vars) = Some v" "name v = name a"
    by auto
  then have Pv: "?P v" "v \<in> set vars"
    using find_SomeD [of ?P "rev vars" v] by simp_all
  with others v(2) vars have "v \<notin> set (pre @ mid @ b # post)"
    by metis
  with Pv(2) vars have va: "v = a"
    by auto
  with Pv(1) b have "?P b"
    by simp
  then have "\<exists>x \<in> set (rev post @ [b]). ?P x"
    by auto
  moreover from v(1) vars have "find ?P ((rev post @ [b]) @ (rev mid @ a # rev pre)) = Some v"
    by simp
  ultimately have "find ?P (rev post @ [b]) = Some v"
    by (rule find_append_Some [rotated])
  then have "v \<in> set (rev post @ [b])"
    using find_SomeD [of ?P "rev post @ [b]" v] by blast
  with \<open>v \<notin> set (pre @ mid @ b # post)\<close> show False
    by auto
qed

lemma strict_sorted_list_of_set: "sorted_wrt (<) xs \<Longrightarrow> sorted_list_of_set (set xs) = xs"
  by (simp add: strict_sorted_iff sorted_list_of_set.idem_if_sorted_distinct)

lemma group_loop_groups:
  assumes "group_loop vars (\<lambda>c. []) = Inr (vars', maps)"
  shows "maps c = map (\<lambda>p. (p, map (slot_of c p vars) [0..<8]))
                    (sorted_list_of_set {p. members c p vars \<noteq> []})"
proof -
  have "sorted_maps maps"
    using assms sorted_maps_empty by (rule group_loop_sorted)
  then have "sorted_wrt (<) (map fst (maps c))"
    by (simp add: sorted_maps_iff)
  then have "sorted_list_of_set (set (map fst (maps c))) = map fst (maps c)"
    by (rule strict_sorted_list_of_set)
  moreover have "set (map fst (maps c)) = {p. members c p vars \<noteq> []}"
    using group_loop_keys [OF assms, of c] by simp
  ultimately have "map fst (maps c) = sorted_list_of_set {p. members c p vars \<noteq> []}"
    by simp
  with group_loop_entries [OF assms, of c] show ?thesis
    by simp
qed

lemma generateBoolGroups_text:
  assumes "generateBoolGroups vars = Inr (text, vars')"
  shows "text =
      concat (map (group_constant CHR ''I'') (map (\<lambda>p. (p, map (slot_of inputs p vars) [0..<8]))
                    (sorted_list_of_set {p. members inputs p vars \<noteq> []})))
    @ concat (map (group_constant CHR ''Q'') (map (\<lambda>p. (p, map (slot_of outputs p vars) [0..<8]))
                    (sorted_list_of_set {p. members outputs p vars \<noteq> []})))
    @ concat (map (group_constant CHR ''M'') (map (\<lambda>p. (p, map (slot_of memory p vars) [0..<8]))
                    (sorted_list_of_set {p. members memory p vars \<noteq> []})))"
proof -
  from assms obtain maps where loop: "group_loop vars (\<lambda>c. []) = Inr (vars', maps)"
    and out: "text = generateBoolGroups_items CHR ''I'' (maps inputs)
          @ generateBoolGroups_items CHR ''Q'' (maps outputs)
          @ generateBoolGroups_items CHR ''M'' (maps memory)"
    by (rule generateBoolGroups_Inr)
  show ?thesis
    unfolding out generateBoolGroups_items_concat
    by (simp only: group_loop_groups [OF loop, symmetric])
qed

lemma last_name_in_slot:
  assumes "generateBoolGroups vars = Inr (text, vars')"
    and vars: "vars = pre @ b # post" and b: "is_bit b" "group_key b = (c, p)"
    and post: "\<forall>w \<in> set post. \<not> (is_bit w \<and> group_key w = (c, p) \<and> pos2 w = pos2 b)"
  shows "members c p vars \<noteq> [] \<and> unat (pos2 b) < 8
       \<and> map (slot_of c p vars) [0..<8] ! unat (pos2 b) = name b"
proof -
  from assms(1) obtain maps where loop: "group_loop vars (\<lambda>c. []) = Inr (vars', maps)"
    by (rule generateBoolGroups_Inr)
  from vars b have "members c p vars \<noteq> []"
    by (auto simp: members_empty_iff)
  moreover from vars have "b \<in> set vars"
    by simp
  with group_loop_ok [OF loop] b(1) have k: "unat (pos2 b) < 8"
    by (simp add: word_less_nat_alt)
  moreover from k have "map (slot_of c p vars) [0..<8] ! unat (pos2 b) = slot_of c p vars (unat (pos2 b))"
    by (simp del: upt_Suc)
  ultimately show ?thesis
    using slot_of_last [OF vars b post] by simp
qed

lemma generateBoolGroups_sample_collision:
  "generateBoolGroups sample_collision =
     Inr (''GlueBoolGroup ___IG0 { .index=0, .values={ __IX00_0, nullptr, nullptr, nullptr, nullptr, nullptr, nullptr, nullptr, } };'' @ [NL]
          @ ''GlueBoolGroup* __IG0(&___IG0);'' @ [NL],
          [\<lparr>name = ''__IG0'', type = ''BOOL'', pos1 = 0, pos2 = 0\<rparr>])"
  by (simp add: sample_collision_def generateBoolGroups_def
      string_at_def map_find_def slot_assign_def container_of_def generateBoolGroups_items_def
      group_constant_def NUL_def replicate_8)

lemma keys_collision:
  "{p. members inputs p sample_collision \<noteq> []} = {0}"
  "{p. members outputs p sample_collision \<noteq> []} = {}"
  "{p. members memory p sample_collision \<noteq> []} = {}"
  by (auto simp: members_def sample_collision_def is_bit_def group_key_def string_at_def
      container_of_def)

text \<open>
  C8 (as amended). The text \<^verbatim>\<open>generateBoolGroups\<close> writes is the group constants and nothing
  else, so no conflict is reported: for each direction in the order I, Q, M and each major
  index \<open>p\<close> that a bit-addressed declaration of the direction has, in ascending order, the
  two lines of the constant, which list the eight slots of the group, \<^verbatim>\<open>nullptr\<close> for an
  empty one. Slot \<open>k\<close> of the group \<open>(c, p)\<close> is the name of the last declaration of the
  list that claims \<open>(c, p, k)\<close>. So the slot of a declaration holds its name whenever no
  later declaration claims the same triple, whatever earlier declarations wrote there; and
  when a later declaration \<open>b\<close> claims the triple of an earlier one \<open>a\<close>, the name of \<open>a\<close> is
  not among the eight names the constant of the group lists, unless another declaration of
  the group carries that name too.
\<close>

theorem generateBoolGroups_last_write_wins:
  fixes vars :: "IecVar list"
  defines "groups \<equiv> \<lambda>c. map (\<lambda>p. (p, map (slot_of c p vars) [0..<8]))
                            (sorted_list_of_set {p. members c p vars \<noteq> []})"
  defines "constant \<equiv> \<lambda>d g.
     ''GlueBoolGroup ___'' @ [d] @ ''G'' @ to_string (unat (fst g))
     @ '' { .index='' @ to_string (unat (fst g)) @ '', .values={ ''
     @ concat (map (\<lambda>s. if s = [] then ''nullptr, '' else s @ '', '') (snd g))
     @ ''} };'' @ [NL]
     @ ''GlueBoolGroup* __'' @ [d] @ ''G'' @ to_string (unat (fst g))
     @ ''(&___'' @ [d] @ ''G'' @ to_string (unat (fst g)) @ '');'' @ [NL]"
  assumes "generateBoolGroups vars = Inr (text, vars')"
  shows "text = concat (map (constant CHR ''I'') (groups inputs))
              @ concat (map (constant CHR ''Q'') (groups outputs))
              @ concat (map (constant CHR ''M'') (groups memory))
    \<and> (\<forall>pre b post c p.
          vars = pre @ b # post \<and> is_bit b \<and> group_key b = (c, p)
          \<and> (\<forall>w \<in> set post. \<not> (is_bit w \<and> group_key w = (c, p) \<and> pos2 w = pos2 b))
          \<longrightarrow> members c p vars \<noteq> [] \<and> unat (pos2 b) < 8
              \<and> map (slot_of c p vars) [0..<8] ! unat (pos2 b) = name b)
    \<and> (\<forall>pre a mid b post c p.
          vars = pre @ a # mid @ b # post
          \<and> is_bit a \<and> group_key a = (c, p) \<and> is_bit b \<and> group_key b = (c, p)
          \<and> pos2 a = pos2 b
          \<and> (\<forall>w \<in> set (pre @ mid @ b # post).
                 is_bit w \<and> group_key w = (c, p) \<longrightarrow> name w \<noteq> name a)
          \<longrightarrow> name a \<notin> set (map (slot_of c p vars) [0..<8]))"
proof -
  have "group_constant d = constant d" for d
    unfolding constant_def by (rule ext) (rule group_constant_text)
  with generateBoolGroups_text [OF assms(3)]
  have 1: "text = concat (map (constant CHR ''I'') (groups inputs))
              @ concat (map (constant CHR ''Q'') (groups outputs))
              @ concat (map (constant CHR ''M'') (groups memory))"
    unfolding groups_def by simp
  have 3: "\<forall>pre b post c p.
          vars = pre @ b # post \<and> is_bit b \<and> group_key b = (c, p)
          \<and> (\<forall>w \<in> set post. \<not> (is_bit w \<and> group_key w = (c, p) \<and> pos2 w = pos2 b))
          \<longrightarrow> members c p vars \<noteq> [] \<and> unat (pos2 b) < 8
              \<and> map (slot_of c p vars) [0..<8] ! unat (pos2 b) = name b"
  proof (intro allI impI)
    fix pre b post c p
    assume h: "vars = pre @ b # post \<and> is_bit b \<and> group_key b = (c, p)
          \<and> (\<forall>w \<in> set post. \<not> (is_bit w \<and> group_key w = (c, p) \<and> pos2 w = pos2 b))"
    show "members c p vars \<noteq> [] \<and> unat (pos2 b) < 8
              \<and> map (slot_of c p vars) [0..<8] ! unat (pos2 b) = name b"
      by (rule last_name_in_slot [OF assms(3), of pre b post c p]) (use h in simp_all)
  qed
  have 4: "\<forall>pre a mid b post c p.
          vars = pre @ a # mid @ b # post
          \<and> is_bit a \<and> group_key a = (c, p) \<and> is_bit b \<and> group_key b = (c, p)
          \<and> pos2 a = pos2 b
          \<and> (\<forall>w \<in> set (pre @ mid @ b # post).
                 is_bit w \<and> group_key w = (c, p) \<longrightarrow> name w \<noteq> name a)
          \<longrightarrow> name a \<notin> set (map (slot_of c p vars) [0..<8])"
  proof (intro allI impI)
    fix pre a mid b post c p
    assume h: "vars = pre @ a # mid @ b # post
          \<and> is_bit a \<and> group_key a = (c, p) \<and> is_bit b \<and> group_key b = (c, p)
          \<and> pos2 a = pos2 b
          \<and> (\<forall>w \<in> set (pre @ mid @ b # post).
                 is_bit w \<and> group_key w = (c, p) \<longrightarrow> name w \<noteq> name a)"
    show "name a \<notin> set (map (slot_of c p vars) [0..<8])"
      by (rule earlier_name_absent [of vars pre a mid b post c p]) (use h in blast)+
  qed
  from 1 3 4 show ?thesis
    by (intro conjI)
qed

theorem generateBoolGroups_last_write_wins_witness:
  "generateBoolGroups sample_collision =
     Inr (''GlueBoolGroup ___IG0 { .index=0, .values={ __IX00_0, nullptr, nullptr, nullptr, nullptr, nullptr, nullptr, nullptr, } };'' @ [NL]
          @ ''GlueBoolGroup* __IG0(&___IG0);'' @ [NL],
          [\<lparr>name = ''__IG0'', type = ''BOOL'', pos1 = 0, pos2 = 0\<rparr>])
   \<and> sample_collision =
       [\<lparr>name = ''__IX0_0'', type = ''BOOL'', pos1 = 0, pos2 = 0\<rparr>,
        \<lparr>name = ''__IX00_0'', type = ''BOOL'', pos1 = 0, pos2 = 0\<rparr>]
   \<and> ''GlueBoolGroup ___IG0 { .index=0, .values={ __IX00_0, nullptr, nullptr, nullptr, nullptr, nullptr, nullptr, nullptr, } };'' @ [NL]
          @ ''GlueBoolGroup* __IG0(&___IG0);'' @ [NL]
       = ''GlueBoolGroup ___IG0 { .index=0, .values={ ''
          @ concat (map (\<lambda>s. if s = [] then ''nullptr, '' else s @ '', '')
                      (map (slot_of inputs 0 sample_collision) [0..<8]))
          @ ''} };'' @ [NL] @ ''GlueBoolGroup* __IG0(&___IG0);'' @ [NL]
   \<and> map (slot_of inputs 0 sample_collision) [0..<8] ! 0 = ''__IX00_0''
   \<and> ''__IX0_0'' \<notin> set (map (slot_of inputs 0 sample_collision) [0..<8])"
proof -
  let ?a = "\<lparr>name = ''__IX0_0'', type = ''BOOL'', pos1 = 0, pos2 = 0\<rparr>"
  let ?b = "\<lparr>name = ''__IX00_0'', type = ''BOOL'', pos1 = 0, pos2 = 0\<rparr>"
  let ?out = "''GlueBoolGroup ___IG0 { .index=0, .values={ __IX00_0, nullptr, nullptr, nullptr, nullptr, nullptr, nullptr, nullptr, } };'' @ [NL]
          @ ''GlueBoolGroup* __IG0(&___IG0);'' @ [NL]"
  note th = generateBoolGroups_last_write_wins [OF generateBoolGroups_sample_collision]
  have bits: "is_bit ?a" "is_bit ?b" "group_key ?a = (inputs, 0)" "group_key ?b = (inputs, 0)"
    by (simp_all add: is_bit_def group_key_def string_at_def container_of_def)
  from th have "?out = ''GlueBoolGroup ___IG0 { .index=0, .values={ ''
          @ concat (map (\<lambda>s. if s = [] then ''nullptr, '' else s @ '', '')
                      (map (slot_of inputs 0 sample_collision) [0..<8]))
          @ ''} };'' @ [NL] @ ''GlueBoolGroup* __IG0(&___IG0);'' @ [NL]"
    by (simp add: keys_collision to_string.simps del: map_map upt_Suc)
  moreover from th have "sample_collision = [?a] @ ?b # [] \<and> is_bit ?b \<and> group_key ?b = (inputs, 0)
          \<and> (\<forall>w \<in> set []. \<not> (is_bit w \<and> group_key w = (inputs, 0) \<and> pos2 w = pos2 ?b))
          \<longrightarrow> members inputs 0 sample_collision \<noteq> [] \<and> unat (pos2 ?b) < 8
              \<and> map (slot_of inputs 0 sample_collision) [0..<8] ! unat (pos2 ?b) = name ?b"
    by blast
  then have "map (slot_of inputs 0 sample_collision) [0..<8] ! 0 = ''__IX00_0''"
    using bits by (simp add: sample_collision_def del: upt_Suc map_map)
  moreover from th have "sample_collision = [] @ ?a # [] @ ?b # []
          \<and> is_bit ?a \<and> group_key ?a = (inputs, 0) \<and> is_bit ?b \<and> group_key ?b = (inputs, 0)
          \<and> pos2 ?a = pos2 ?b
          \<and> (\<forall>w \<in> set ([] @ [] @ ?b # []).
                 is_bit w \<and> group_key w = (inputs, 0) \<longrightarrow> name w \<noteq> name ?a)
          \<longrightarrow> name ?a \<notin> set (map (slot_of inputs 0 sample_collision) [0..<8])"
    by blast
  then have "''__IX0_0'' \<notin> set (map (slot_of inputs 0 sample_collision) [0..<8])"
    using bits by (simp add: sample_collision_def del: upt_Suc map_map)
  ultimately show ?thesis
    using generateBoolGroups_sample_collision by (simp add: sample_collision_def del: upt_Suc map_map)
qed

text \<open>
  C8 (as stated) fails when the name of the earlier declaration occurs again in its group.
  Two declarations of \<^verbatim>\<open>__IX0_0\<close> claim the triple (I, 0, 0), and the constant lists the
  name. And when \<^verbatim>\<open>__IX0_0\<close>, \<^verbatim>\<open>__IX00_0\<close> and \<^verbatim>\<open>__IX0_0\<close> claim it in this order, the second
  declaration overwrites the first, and the name of the first is in the constant all the
  same, written by the third.
\<close>

theorem generateBoolGroups_same_name_counterexample:
  "generateBoolGroups
     [\<lparr>name = ''__IX0_0'', type = ''BOOL'', pos1 = 0, pos2 = 0\<rparr>,
      \<lparr>name = ''__IX0_0'', type = ''BOOL'', pos1 = 0, pos2 = 0\<rparr>] =
     Inr (''GlueBoolGroup ___IG0 { .index=0, .values={ __IX0_0, nullptr, nullptr, nullptr, nullptr, nullptr, nullptr, nullptr, } };'' @ [NL]
          @ ''GlueBoolGroup* __IG0(&___IG0);'' @ [NL],
          [\<lparr>name = ''__IG0'', type = ''BOOL'', pos1 = 0, pos2 = 0\<rparr>])
   \<and> generateBoolGroups
     [\<lparr>name = ''__IX0_0'', type = ''BOOL'', pos1 = 0, pos2 = 0\<rparr>,
      \<lparr>name = ''__IX00_0'', type = ''BOOL'', pos1 = 0, pos2 = 0\<rparr>,
      \<lparr>name = ''__IX0_0'', type = ''BOOL'', pos1 = 0, pos2 = 0\<rparr>] =
     Inr (''GlueBoolGroup ___IG0 { .index=0, .values={ __IX0_0, nullptr, nullptr, nullptr, nullptr, nullptr, nullptr, nullptr, } };'' @ [NL]
          @ ''GlueBoolGroup* __IG0(&___IG0);'' @ [NL],
          [\<lparr>name = ''__IG0'', type = ''BOOL'', pos1 = 0, pos2 = 0\<rparr>])"
  by (simp add: generateBoolGroups_def
      string_at_def map_find_def slot_assign_def container_of_def generateBoolGroups_items_def
      group_constant_def NUL_def replicate_8)

text \<open>
  C10. The text of the group constants is the constants of the input groups, then those of
  the output groups, then those of the memory groups; within each direction the major
  indices ascend strictly, and they are the major indices of the bit-addressed
  declarations of that direction, in whatever order the list has them.
\<close>

theorem generateBoolGroups_emission_order:
  assumes "generateBoolGroups vars = Inr (text, vars')"
  shows "\<exists>gi gq gm.
      text = concat (map (group_constant CHR ''I'') gi)
           @ concat (map (group_constant CHR ''Q'') gq)
           @ concat (map (group_constant CHR ''M'') gm)
    \<and> sorted_wrt (<) (map fst gi) \<and> sorted_wrt (<) (map fst gq) \<and> sorted_wrt (<) (map fst gm)
    \<and> set (map fst gi) =
        {pos1 v |v. v \<in> set vars \<and> is_bit v \<and> container_of (name v ! 2) = inputs}
    \<and> set (map fst gq) =
        {pos1 v |v. v \<in> set vars \<and> is_bit v \<and> container_of (name v ! 2) = outputs}
    \<and> set (map fst gm) =
        {pos1 v |v. v \<in> set vars \<and> is_bit v \<and> container_of (name v ! 2) = memory}"
proof -
  from assms obtain maps where loop: "group_loop vars (\<lambda>c. []) = Inr (vars', maps)"
    and out: "text = generateBoolGroups_items CHR ''I'' (maps inputs)
          @ generateBoolGroups_items CHR ''Q'' (maps outputs)
          @ generateBoolGroups_items CHR ''M'' (maps memory)"
    by (rule generateBoolGroups_Inr)
  have "sorted_maps maps"
    using loop sorted_maps_empty by (rule group_loop_sorted)
  then have sorted: "sorted_wrt (<) (map fst (maps c))" for c
    by (simp add: sorted_maps_iff)
  have keys: "set (map fst (maps c)) =
      {pos1 v |v. v \<in> set vars \<and> is_bit v \<and> container_of (name v ! 2) = c}" for c
    using group_loop_keys [OF loop, of c] by (simp add: group_keys_of_container)
  from out have "text = concat (map (group_constant CHR ''I'') (maps inputs))
           @ concat (map (group_constant CHR ''Q'') (maps outputs))
           @ concat (map (group_constant CHR ''M'') (maps memory))"
    by (simp only: generateBoolGroups_items_concat)
  with sorted keys show ?thesis
    by blast
qed

theorem generateBoolGroups_emission_order_witness:
  "generateBoolGroups sample_vars = Inr (sample_groups_text, sample_grouped) \<and>
   (\<exists>gi gq gm.
      sample_groups_text = concat (map (group_constant CHR ''I'') gi)
           @ concat (map (group_constant CHR ''Q'') gq)
           @ concat (map (group_constant CHR ''M'') gm)
    \<and> sorted_wrt (<) (map fst gi) \<and> sorted_wrt (<) (map fst gq) \<and> sorted_wrt (<) (map fst gm)
    \<and> set (map fst gi) =
        {pos1 v |v. v \<in> set sample_vars \<and> is_bit v \<and> container_of (name v ! 2) = inputs}
    \<and> set (map fst gq) =
        {pos1 v |v. v \<in> set sample_vars \<and> is_bit v \<and> container_of (name v ! 2) = outputs}
    \<and> set (map fst gm) =
        {pos1 v |v. v \<in> set sample_vars \<and> is_bit v \<and> container_of (name v ! 2) = memory})"
  using generateBoolGroups_emission_order [OF generateBoolGroups_sample] generateBoolGroups_sample
  by (rule conjI [rotated])

subsection \<open>C9: declarations without a case in the direct-assignment pass\<close>








lemma keys_unmapped:
  "{p. members inputs p sample_unmapped \<noteq> []} = {}"
  "{p. members outputs p sample_unmapped \<noteq> []} = {}"
  "{p. members memory p sample_unmapped \<noteq> []} = {0}"
  by (auto simp: members_def sample_unmapped_def sample_bit_memory_def is_bit_def group_key_def
      string_at_def container_of_def)



subsection \<open>C3: the checksum\<close>

lemma getline_filter:
  assumes "getline s = Some (line, rest)"
  shows "filter (\<lambda>c. c \<noteq> NL) s = line @ filter (\<lambda>c. c \<noteq> NL) rest"
proof -
  let ?P = "\<lambda>c. c \<noteq> NL"
  from assms have line: "line = takeWhile ?P s" and rest: "rest = drop 1 (dropWhile ?P s)"
    by (auto simp: getline_def split: if_splits)
  have "filter ?P (takeWhile ?P s) = takeWhile ?P s"
    by (induction s) auto
  moreover have "filter ?P (dropWhile ?P s) = filter ?P (drop 1 (dropWhile ?P s))"
    by (induction s) auto
  moreover have "filter ?P s = filter ?P (takeWhile ?P s) @ filter ?P (dropWhile ?P s)"
    by (induction s) auto
  ultimately show ?thesis
    by (simp only: line rest)
qed

lemma concat_input_lines: "concat (input_lines s) = filter (\<lambda>c. c \<noteq> NL) s"
proof (induction s rule: input_lines.induct)
  case (1 s)
  show ?case
  proof (cases "getline s")
    case None
    then have "s = []"
      by (simp add: getline_def split: if_splits)
    with None show ?thesis
      by (subst input_lines.simps) simp
  next
    case (Some p)
    obtain line rest where p: "p = (line, rest)" by (cases p)
    from 1 [OF Some p [symmetric]] Some p getline_filter [of s line rest] show ?thesis
      by (subst input_lines.simps) simp
  qed
qed

lemma parseIecVars_Some:
  assumes "parseIecVars s n t m = Inr (Some (rest, n', t', m'))"
  obtains line where "getline s = Some (line, rest)" "m' = md5_append m line"
  using assms
  by (auto simp: parseIecVars_def split: option.splits sum.splits)

lemma parseIecVars_None:
  assumes "parseIecVars s n t m = Inr None"
  shows "getline s = None"
  using assms
  by (auto simp: parseIecVars_def split: option.splits sum.splits)

lemma read_loop_md5_state:
  assumes "read_loop s n t m vs log = Inr (vs', m', log')"
  shows "m' = m @ concat (input_lines s)"
  using assms
proof (induction s n t m vs log rule: read_loop.induct)
  case (1 s n t m vs log)
  from "1.prems" obtain r where r: "parseIecVars s n t m = Inr r"
    by (subst (asm) read_loop.simps) (auto split: sum.splits)
  show ?case
  proof (cases r)
    case None
    with r have "getline s = None"
      by (simp add: parseIecVars_None)
    moreover from "1.prems" r None have "m' = m"
      by (subst (asm) read_loop.simps) simp
    ultimately show ?thesis
      by (subst input_lines.simps) simp
  next
    case (Some q)
    obtain rest n' t' m1 where q: "q = (rest, n', t', m1)"
      by (cases q)
    from r Some q obtain line where line: "getline s = Some (line, rest)" "m1 = md5_append m line"
      by (auto elim: parseIecVars_Some)
    from "1.prems" r Some q obtain nm ty p1 p2 where
      nm: "c_str n' = Inr nm" and ty: "c_str t' = Inr ty" and p: "findPositions n' = Inr (p1, p2)"
      and rec: "read_loop rest n' t' m1 (vs @ [\<lparr>name = nm, type = ty, pos1 = p1, pos2 = p2\<rparr>])
                 (log @ ''varName: '' @ nm @ [TAB] @ ''varType: '' @ ty @ [NL]) = Inr (vs', m', log')"
      by (subst (asm) read_loop.simps) (auto split: sum.splits)
    have "m' = m1 @ concat (input_lines rest)"
      by (rule "1.IH" [OF r Some q [symmetric] refl refl nm ty p refl rec])
    with line show ?thesis
      by (subst input_lines.simps) (simp add: md5_append_def)
  qed
qed

text \<open>
  C3, as amended. When \<^verbatim>\<open>generateBody\<close> returns, the digest is the digest of the
  concatenation, in read order, of the lines of the input without their newlines:
  \<^verbatim>\<open>getline\<close> discards the newline, so the bytes appended to the checksum are the input with
  every newline removed. The names that the grouping rewrites later play no part.
\<close>

theorem generateBody_checksum:
  assumes "generateBody md5_finish locatedVars = Inr (out, log, digest)"
  shows "digest = md5_finish (concat (input_lines locatedVars))
       \<and> concat (input_lines locatedVars) = filter (\<lambda>c. c \<noteq> NL) locatedVars"
proof -
  from assms obtain all_vars md5_state log0 where
    "read_loop locatedVars (replicate 100 None) (replicate 100 None) md5_init [] [] =
       Inr (all_vars, md5_state, log0)"
    and "digest = md5_finish md5_state"
    by (auto simp: generateBody_def split: sum.splits)
  then show ?thesis
    using read_loop_md5_state [of locatedVars "replicate 100 None" "replicate 100 None" md5_init "[]" "[]"]
    by (simp add: md5_init_def concat_input_lines)
qed

text \<open>
  The two sample inputs, for every digest function: on the well-formed lines the bytes
  digested are the two lines without their newlines; on the lines of the scenario the
  parser leaves its arrays before any digest is taken.
\<close>

lemma generateBody_sample_input:
  "generateBody md5_finish sample_input =
     Inr (sample_glue, sample_log,
          md5_finish ''__LOCATED_VAR(BOOL,__IX0_0,I,X,0,0)__LOCATED_VAR(BOOL,__IX0_1,I,X,0,1)'')"
  by code_simp

lemma generateBody_spec_sample_input:
  "generateBody md5_finish spec_sample_input = Inl OutOfBounds"
  by code_simp

theorem generateBody_checksum_witness:
  "generateBody (map of_char) sample_input =
     Inr (sample_glue, sample_log,
          map of_char ''__LOCATED_VAR(BOOL,__IX0_0,I,X,0,0)__LOCATED_VAR(BOOL,__IX0_1,I,X,0,1)'')
   \<and> map of_char ''__LOCATED_VAR(BOOL,__IX0_0,I,X,0,0)__LOCATED_VAR(BOOL,__IX0_1,I,X,0,1)'' =
       (map of_char (concat (input_lines sample_input)) :: md5_byte_t list)
   \<and> concat (input_lines sample_input) = filter (\<lambda>c. c \<noteq> NL) sample_input"
  using generateBody_checksum [OF generateBody_sample_input [of "map of_char"]]
    generateBody_sample_input [of "map of_char"]
  by simp

text \<open>
  The claim as stated fails twice. On the two lines of its scenario the parser finds no
  second comma and runs over the end of \<^verbatim>\<open>varName\<close>: there is no defined digest. On two
  well-formed lines, with the digest that returns the bytes themselves, the digest is that
  of the lines without their newlines and not that of the raw input.
\<close>

theorem generateBody_checksum_counterexample:
  "generateBody (map of_char) spec_sample_input = Inl OutOfBounds
   \<and> generateBody (map of_char) sample_input =
       Inr (sample_glue, sample_log,
            map of_char ''__LOCATED_VAR(BOOL,__IX0_0,I,X,0,0)__LOCATED_VAR(BOOL,__IX0_1,I,X,0,1)'')
   \<and> map of_char ''__LOCATED_VAR(BOOL,__IX0_0,I,X,0,0)__LOCATED_VAR(BOOL,__IX0_1,I,X,0,1)''
       \<noteq> spec_checksum (map of_char) sample_input"
proof -
  have "map of_char ''__LOCATED_VAR(BOOL,__IX0_0,I,X,0,0)__LOCATED_VAR(BOOL,__IX0_1,I,X,0,1)''
       \<noteq> spec_checksum (map of_char) sample_input"
    by (simp add: spec_checksum_def sample_input_def)
  then show ?thesis
    using generateBody_sample_input [of "map of_char"]
      generateBody_spec_sample_input [of "map of_char"]
    by simp
qed

subsection \<open>C6: a minor index of 8 or more\<close>

text \<open>
  \<^verbatim>\<open>glueVar\<close> reports a minor index of 8 or more on \<^verbatim>\<open>cout\<close> and goes on: whether it returns
  does not depend on the indices.
\<close>

lemma glueVar_minor_index:
  "glueVar varName p1 p2 = Inr (stmt, log) \<Longrightarrow>
   log = (if 8 \<le> p2 then invalid_addressing varName else [])"
  by (auto simp: glueVar_def Let_def split: sum.splits if_splits)

lemma glueVar_total: "(\<exists>r. glueVar varName p1 p2 = Inr r) \<longleftrightarrow> 2 \<le> length varName"
proof
  assume "\<exists>r. glueVar varName p1 p2 = Inr r"
  then obtain d where "string_at varName 2 = Inr d"
    by (auto simp: glueVar_def Let_def split: sum.splits)
  then show "2 \<le> length varName"
    using string_at_Inr_iff [of varName 2] by blast
next
  assume len: "2 \<le> length varName"
  then obtain d where d: "string_at varName 2 = Inr d"
    using string_at_Inr_iff [of varName 2] by blast
  show "\<exists>r. glueVar varName p1 p2 = Inr r"
  proof (cases "d = CHR ''I'' \<or> d = CHR ''Q'' \<or> d = CHR ''M''")
    case True
    with d have "length varName \<noteq> 2"
      by (auto simp: string_at_def NUL_def split: if_splits)
    with len obtain s where "string_at varName 3 = Inr s"
      using string_at_Inr_iff [of varName 3] by auto
    with d show ?thesis
      by (simp add: glueVar_def Let_def)
  next
    case False
    with d show ?thesis
      by (simp add: glueVar_def Let_def)
  qed
qed

text \<open>
  The grouping writes the name into slot \<^verbatim>\<open>pos2\<close> of an array of eight without a check: a
  bit-addressed declaration with a minor index of 8 or more leaves it without a defined
  result, whatever else the list holds.
\<close>

lemma generateBoolGroups_minor_index:
  assumes "v \<in> set vars" and "is_bit v" and "8 \<le> pos2 v"
  shows "\<exists>e. generateBoolGroups vars = Inl e"
proof (cases "generateBoolGroups vars")
  case (Inl e)
  then show ?thesis by blast
next
  case (Inr r)
  then obtain vars' maps where "group_loop vars (\<lambda>c. []) = Inr (vars', maps)"
    by (auto simp: generateBoolGroups_def split: sum.splits)
  from group_loop_ok [OF this assms(1)] assms(2) have "pos2 v < 8"
    by simp
  with assms(3) show ?thesis
    by (simp add: not_le [symmetric])
qed

text \<open>
  A declaration that is not bit-addressed passes with its message: the line of a word
  output with minor index 9.
\<close>

lemma generateBody_word_minor_index:
  "generateBody md5_finish (''__LOCATED_VAR(INT,__QW3_9,Q,W,3,9)'' @ [NL]) =
     Inr (''void glueVars()'' @ [NL] @ ''{'' @ [NL]
          @ [TAB] @ ''int_output[3] = __QW3_9;'' @ [NL]
          @ ''}'' @ [NL, NL]
          @ ''/// The size of the array of glue variables.'' @ [NL]
          @ ''extern std::size_t const OPLCGLUE_GLUE_SIZE(1);'' @ [NL]
          @ ''/// The packed glue variables.'' @ [NL]
          @ ''extern const GlueVariable oplc_glue_vars[] = {'' @ [NL]
          @ ''    { IECLDT_OUT, IECLST_WORD, 3, 9, IECVT_INT,  __QW3_9 },'' @ [NL]
          @ ''};'' @ [NL, NL],
          ''varName: __QW3_9'' @ [TAB] @ ''varType: INT'' @ [NL]
          @ ''***Invalid addressing on located variable__QW3_9***'' @ [NL],
          md5_finish ''__LOCATED_VAR(INT,__QW3_9,Q,W,3,9)'')"
  by code_simp

text \<open>
  C6. For the line of \<^verbatim>\<open>%IX0.8\<close> the direct-assignment pass writes the message and the
  statement, as the claim says; the grouping that follows writes to \<^verbatim>\<open>slots[8]\<close>, outside
  the array of the group, and \<^verbatim>\<open>generateBody\<close> has no defined result.
\<close>

theorem minor_index_8_out_of_bounds:
  "glueVar ''__IX0_8'' 0 8 =
     Inr ([TAB] @ ''bool_input[0][8] = __IX0_8;'' @ [NL],
          ''***Invalid addressing on located variable__IX0_8***'' @ [NL])
   \<and> generateBoolGroups [\<lparr>name = ''__IX0_8'', type = ''BOOL'', pos1 = 0, pos2 = 8\<rparr>] = Inl OutOfBounds
   \<and> generateBody (map of_char) (''__LOCATED_VAR(BOOL,__IX0_8,I,X,0,8)'' @ [NL]) = Inl OutOfBounds"
  by code_simp

subsection \<open>C7: the fields the parser returns\<close>

lemma NUL_notin_line_buffer: "NUL \<notin> set (line_buffer line)"
proof
  assume "NUL \<in> set (line_buffer line)"
  then have "NUL \<in> set (takeWhile (\<lambda>c. c \<noteq> NUL) line)"
    unfolding line_buffer_def c_text_def by (rule in_set_takeD)
  then show False
    by (auto dest: set_takeWhileD)
qed

lemma buffer_at_char:
  assumes "buffer_at line i = Inr c" and "c \<noteq> NUL"
  shows "i < length (line_buffer line) \<and> line_buffer line ! i = c"
  using assms by (auto simp: buffer_at_def line_buffer_def split: if_splits)

lemma buffer_at_line_buffer:
  "i < length (line_buffer line) \<Longrightarrow> buffer_at line i = Inr (line_buffer line ! i)"
  by (simp add: buffer_at_def line_buffer_def)

lemma skip_to_paren_Inr:
  assumes "skip_to_paren line i = Inr k"
  shows "i \<le> k \<and> k < length (line_buffer line) \<and> line_buffer line ! k = CHR ''(''
       \<and> CHR ''('' \<notin> set (take (k - i) (drop i (line_buffer line)))"
  using assms
proof (induction line i rule: skip_to_paren.induct)
  case (1 line i)
  let ?B = "line_buffer line"
  from "1.prems" obtain c where c: "buffer_at line i = Inr c"
    by (subst (asm) skip_to_paren.simps) (auto split: sum.splits)
  show ?case
  proof (cases "c = CHR ''(''")
    case True
    with "1.prems" c have "k = i"
      by (subst (asm) skip_to_paren.simps) simp
    with True c buffer_at_char [of line i c] show ?thesis
      by (simp add: NUL_def)
  next
    case False
    with "1.prems" c have rec: "skip_to_paren line (i + 1) = Inr k"
      by (subst (asm) skip_to_paren.simps) simp
    from "1.IH" [OF c False rec] have ih: "i + 1 \<le> k" "k < length ?B" "?B ! k = CHR ''(''"
      "CHR ''('' \<notin> set (take (k - (i + 1)) (drop (i + 1) ?B))"
      by blast+
    from ih(1,2) have i: "i < length ?B"
      by simp
    with c have ci: "?B ! i = c"
      by (simp add: buffer_at_line_buffer)
    from ih(1) have "k - i = Suc (k - (i + 1))"
      by simp
    with i have "take (k - i) (drop i ?B) = ?B ! i # take (k - (i + 1)) (drop (i + 1) ?B)"
      by (simp add: Cons_nth_drop_Suc [symmetric])
    with ih ci False show ?thesis
      by simp
  qed
qed

lemma copy_field_Inr:
  assumes "copy_field line i dst j = Inr (k, dst')" and "take j dst = map Some g"
  shows "i \<le> k \<and> k < length (line_buffer line) \<and> line_buffer line ! k = CHR '',''
       \<and> CHR '','' \<notin> set (take (k - i) (drop i (line_buffer line)))
       \<and> (if k = i then dst' = dst
           else \<exists>r. dst' = map Some (g @ take (k - i) (drop i (line_buffer line))) @ Some NUL # r)"
  using assms
proof (induction line i dst j arbitrary: g rule: copy_field.induct)
  case (1 line i dst j)
  let ?B = "line_buffer line"
  from "1.prems"(1) obtain c where c: "buffer_at line i = Inr c"
    by (subst (asm) copy_field.simps) (auto split: sum.splits)
  show ?case
  proof (cases "c = CHR '',''")
    case True
    with "1.prems"(1) c have "k = i" "dst' = dst"
      by (subst (asm) copy_field.simps, simp)+
    with True c buffer_at_char [of line i c] show ?thesis
      by (simp add: NUL_def)
  next
    case False
    let ?dst = "dst[j := Some c, j + 1 := Some NUL]"
    from "1.prems"(1) c False have j: "j + 1 < length dst"
      and rec: "copy_field line (i + 1) ?dst (j + 1) = Inr (k, dst')"
      by (subst (asm) copy_field.simps, simp split: if_splits)+
    from j "1.prems"(2) have tk: "take (j + 1) ?dst = map Some (g @ [c])"
      by (simp add: take_Suc_conv_app_nth)
    from "1.IH" [OF c False j rec tk]
    have ih: "i + 1 \<le> k" "k < length ?B" "?B ! k = CHR '',''"
      "CHR '','' \<notin> set (take (k - (i + 1)) (drop (i + 1) ?B))"
      "if k = i + 1 then dst' = ?dst
       else \<exists>r. dst' = map Some ((g @ [c]) @ take (k - (i + 1)) (drop (i + 1) ?B)) @ Some NUL # r"
      by blast+
    from ih(1,2) have i: "i < length ?B"
      by simp
    with c have ci: "?B ! i = c"
      by (simp add: buffer_at_line_buffer)
    from ih(1) have "k - i = Suc (k - (i + 1))"
      by simp
    with i have fld: "take (k - i) (drop i ?B) = c # take (k - (i + 1)) (drop (i + 1) ?B)"
      by (simp add: Cons_nth_drop_Suc [symmetric] ci)
    have "\<exists>r. dst' = map Some (g @ take (k - i) (drop i ?B)) @ Some NUL # r"
    proof (cases "k = i + 1")
      case True
      with ih(5) have "dst' = ?dst"
        by simp
      also from j have "?dst = take (j + 1) ?dst @ ?dst ! (j + 1) # drop (Suc (j + 1)) ?dst"
        by (intro id_take_nth_drop) simp
      also from j have "?dst ! (j + 1) = Some NUL"
        by simp
      finally show ?thesis
        using True tk fld by auto
    next
      case False
      with ih(5) fld show ?thesis
        by auto
    qed
    with ih fld False show ?thesis
      by auto
  qed
qed

lemma c_str_prefix: "NUL \<notin> set s \<Longrightarrow> c_str (map Some s @ Some NUL # r) = Inr s"
  by (induction s) auto

lemma set_field_subset: "set (take n (drop m xs)) \<subseteq> set xs"
  by (meson set_drop_subset set_take_subset subset_trans)

lemma field_split:
  assumes "i \<le> k" and "k < length xs"
  shows "drop i xs = take (k - i) (drop i xs) @ xs ! k # drop (k + 1) xs"
proof -
  have "drop i xs = take (k - i) (drop i xs) @ drop (k - i) (drop i xs)"
    by (simp only: append_take_drop_id)
  also from assms have "drop (k - i) (drop i xs) = drop k xs"
    by simp
  also from assms have "drop k xs = xs ! k # drop (k + 1) xs"
    by (simp add: Cons_nth_drop_Suc)
  finally show ?thesis .
qed

lemma parseIecVars_split:
  assumes "parseIecVars locatedVars varName varType md5_state =
             Inr (Some (rest, varName', varType', md5_state'))"
  shows "\<exists>line pre ty nm post.
      getline locatedVars = Some (line, rest)
    \<and> line_buffer line = pre @ ''('' @ ty @ '','' @ nm @ '','' @ post
    \<and> CHR ''('' \<notin> set pre \<and> CHR '','' \<notin> set ty \<and> CHR '','' \<notin> set nm
    \<and> (if ty = [] then varType' = varType else c_str varType' = Inr ty \<and> ty \<noteq> [])
    \<and> (if nm = [] then varName' = varName else c_str varName' = Inr nm \<and> nm \<noteq> [])"
proof -
  from assms obtain line k0 k1 k2 where line: "getline locatedVars = Some (line, rest)"
    and k0: "skip_to_paren line 0 = Inr k0"
    and k1: "copy_field line (k0 + 1) varType 0 = Inr (k1, varType')"
    and k2: "copy_field line (k1 + 1) varName 0 = Inr (k2, varName')"
    by (auto simp: parseIecVars_def split: option.splits sum.splits)
  let ?B = "line_buffer line"
  define pre where "pre = take k0 ?B"
  define ty where "ty = take (k1 - (k0 + 1)) (drop (k0 + 1) ?B)"
  define nm where "nm = take (k2 - (k1 + 1)) (drop (k1 + 1) ?B)"
  define post where "post = drop (k2 + 1) ?B"
  from skip_to_paren_Inr [OF k0] have p0: "k0 < length ?B" "?B ! k0 = CHR ''(''"
    "CHR ''('' \<notin> set pre"
    by (simp_all add: pre_def)
  from copy_field_Inr [OF k1, of "[]"] have p1: "k0 + 1 \<le> k1" "k1 < length ?B"
    "?B ! k1 = CHR '',''" "CHR '','' \<notin> set ty"
    "k1 = k0 + 1 \<Longrightarrow> varType' = varType"
    "k1 \<noteq> k0 + 1 \<Longrightarrow> \<exists>r. varType' = map Some ty @ Some NUL # r"
    by (auto simp: ty_def split: if_splits)
  from copy_field_Inr [OF k2, of "[]"] have p2: "k1 + 1 \<le> k2" "k2 < length ?B"
    "?B ! k2 = CHR '',''" "CHR '','' \<notin> set nm"
    "k2 = k1 + 1 \<Longrightarrow> varName' = varName"
    "k2 \<noteq> k1 + 1 \<Longrightarrow> \<exists>r. varName' = map Some nm @ Some NUL # r"
    by (auto simp: nm_def split: if_splits)
  have "?B = take k0 ?B @ drop k0 ?B"
    by simp
  also have "drop k0 ?B = CHR ''('' # drop (k0 + 1) ?B"
    using p0(1,2) Cons_nth_drop_Suc [of k0 ?B] by simp
  also have "drop (k0 + 1) ?B = ty @ CHR '','' # drop (k1 + 1) ?B"
    using field_split [OF p1(1,2)] p1(3) by (simp add: ty_def)
  also have "drop (k1 + 1) ?B = nm @ CHR '','' # post"
    using field_split [OF p2(1,2)] p2(3) by (simp add: nm_def post_def)
  finally have split: "?B = pre @ ''('' @ ty @ '','' @ nm @ '','' @ post"
    by (simp add: pre_def)
  have nul: "NUL \<notin> set ty" "NUL \<notin> set nm"
    using NUL_notin_line_buffer [of line] set_field_subset [of _ _ ?B]
    by (auto simp: ty_def nm_def)
  have ty_empty: "ty = [] \<longleftrightarrow> k1 = k0 + 1"
    using p1(1,2) by (auto simp: ty_def)
  have nm_empty: "nm = [] \<longleftrightarrow> k2 = k1 + 1"
    using p2(1,2) by (auto simp: nm_def)
  have "if ty = [] then varType' = varType else c_str varType' = Inr ty \<and> ty \<noteq> []"
    using p1(5,6) nul(1) by (auto simp: ty_empty c_str_prefix)
  moreover have "if nm = [] then varName' = varName else c_str varName' = Inr nm \<and> nm \<noteq> []"
    using p2(5,6) nul(2) by (auto simp: nm_empty c_str_prefix)
  ultimately show ?thesis
    using line split p0(3) p1(4) p2(4) by blast
qed

text \<open>
  C7, as amended. A call of \<^verbatim>\<open>parseIecVars\<close> that reports a declaration has read a line whose
  scanned part is \<open>pre ( ty , nm , post\<close>, with no parenthesis in \<open>pre\<close> and no comma in \<open>ty\<close>
  and \<open>nm\<close>. Where the type field \<open>ty\<close> is not empty, \<^verbatim>\<open>varType\<close> holds it afterwards, a
  non-empty string; where it is empty, \<^verbatim>\<open>varType\<close> is as the caller passed it. The same
  holds for the name field \<open>nm\<close> and \<^verbatim>\<open>varName\<close>. The parser makes no check of its own.
\<close>

theorem parseIecVars_fields:
  assumes "parseIecVars locatedVars varName varType md5_state =
             Inr (Some (rest, varName', varType', md5_state'))"
  shows "\<exists>line pre ty nm post.
      getline locatedVars = Some (line, rest)
    \<and> line_buffer line = pre @ ''('' @ ty @ '','' @ nm @ '','' @ post
    \<and> CHR ''('' \<notin> set pre \<and> CHR '','' \<notin> set ty \<and> CHR '','' \<notin> set nm
    \<and> (if ty = [] then varType' = varType else c_str varType' = Inr ty \<and> ty \<noteq> [])
    \<and> (if nm = [] then varName' = varName else c_str varName' = Inr nm \<and> nm \<noteq> [])"
  using assms by (rule parseIecVars_split)

lemma parseIecVars_sample:
  "parseIecVars sample_input (replicate 100 None) (replicate 100 None) md5_init =
     Inr (Some (''__LOCATED_VAR(BOOL,__IX0_1,I,X,0,1)'' @ [NL],
                sample_name_cells, sample_type_cells, ''__LOCATED_VAR(BOOL,__IX0_0,I,X,0,0)''))"
  by code_simp

theorem parseIecVars_fields_witness:
  "parseIecVars sample_input (replicate 100 None) (replicate 100 None) md5_init =
     Inr (Some (''__LOCATED_VAR(BOOL,__IX0_1,I,X,0,1)'' @ [NL],
                sample_name_cells, sample_type_cells, ''__LOCATED_VAR(BOOL,__IX0_0,I,X,0,0)''))
   \<and> (\<exists>line pre ty nm post.
      getline sample_input = Some (line, ''__LOCATED_VAR(BOOL,__IX0_1,I,X,0,1)'' @ [NL])
    \<and> line_buffer line = pre @ ''('' @ ty @ '','' @ nm @ '','' @ post
    \<and> CHR ''('' \<notin> set pre \<and> CHR '','' \<notin> set ty \<and> CHR '','' \<notin> set nm
    \<and> (if ty = [] then sample_type_cells = replicate 100 None
        else c_str sample_type_cells = Inr ty \<and> ty \<noteq> [])
    \<and> (if nm = [] then sample_name_cells = replicate 100 None
        else c_str sample_name_cells = Inr nm \<and> nm \<noteq> []))
   \<and> c_str sample_type_cells = Inr ''BOOL'' \<and> c_str sample_name_cells = Inr ''__IX0_0''"
proof -
  have "c_str sample_type_cells = Inr ''BOOL''" and "c_str sample_name_cells = Inr ''__IX0_0''"
    by (simp_all add: sample_type_cells_def sample_name_cells_def NUL_def)
  with parseIecVars_fields [OF parseIecVars_sample] parseIecVars_sample show ?thesis
    by blast
qed

text \<open>
  The claim as stated fails on a line with two empty fields: the call reports a
  declaration and writes neither array. With arrays that hold the empty string the
  declaration has an empty name and an empty type; with the arrays of \<^verbatim>\<open>generateBody\<close>,
  which were never written, it has no name and no type at all.
\<close>

theorem parseIecVars_empty_fields_counterexample:
  "parseIecVars (''__LOCATED_VAR(,,I,X,0,0)'' @ [NL])
       (replicate 100 (Some NUL)) (replicate 100 (Some NUL)) md5_init =
     Inr (Some ([], replicate 100 (Some NUL), replicate 100 (Some NUL),
                ''__LOCATED_VAR(,,I,X,0,0)''))
   \<and> c_str (replicate 100 (Some NUL)) = Inr []
   \<and> parseIecVars (''__LOCATED_VAR(,,I,X,0,0)'' @ [NL])
       (replicate 100 None) (replicate 100 None) md5_init =
     Inr (Some ([], replicate 100 None, replicate 100 None, ''__LOCATED_VAR(,,I,X,0,0)''))
   \<and> c_str (replicate 100 None) = Inl Uninitialised"
  by code_simp

text \<open>
  In \<^verbatim>\<open>generateBody\<close> the arrays start unwritten and are read after every call of the parser.
  When its loop returns, every declaration of \<^verbatim>\<open>all_vars\<close> has a non-empty name and type:
  after an empty field it is the text of an earlier line.
\<close>

lemma c_str_uninitialised: "0 < n \<Longrightarrow> c_str (replicate n None) = Inl Uninitialised"
  by (cases n) simp_all

lemma parseIecVars_holds_text:
  assumes "parseIecVars s n t m = Inr (Some (rest, n', t', m'))"
    and "holds_text n" and "holds_text t"
  shows "holds_text n' \<and> holds_text t'"
proof -
  from parseIecVars_split [OF assms(1)] obtain ty nm where
    "if ty = [] then t' = t else c_str t' = Inr ty \<and> ty \<noteq> []"
    "if nm = [] then n' = n else c_str n' = Inr nm \<and> nm \<noteq> []"
    by blast
  with assms(2,3) show ?thesis
    by (auto simp: holds_text_def split: if_splits)
qed

lemma read_loop_nonempty:
  assumes "read_loop s n t m vs log = Inr (vs', m', log')"
    and "holds_text n" and "holds_text t"
    and "\<And>v. v \<in> set vs \<Longrightarrow> name v \<noteq> [] \<and> type v \<noteq> []"
    and "v \<in> set vs'"
  shows "name v \<noteq> [] \<and> type v \<noteq> []"
  using assms
proof (induction s n t m vs log rule: read_loop.induct)
  case (1 s n t m vs log)
  from "1.prems"(1) obtain r where r: "parseIecVars s n t m = Inr r"
    by (subst (asm) read_loop.simps) (auto split: sum.splits)
  show ?case
  proof (cases r)
    case None
    with "1.prems"(1) r have "vs' = vs"
      by (subst (asm) read_loop.simps) simp
    with "1.prems"(4,5) show ?thesis
      by simp
  next
    case (Some q)
    obtain rest n' t' m1 where q: "q = (rest, n', t', m1)"
      by (cases q)
    from "1.prems"(1) r Some q obtain nm ty p1 p2 where
      nm: "c_str n' = Inr nm" and ty: "c_str t' = Inr ty" and p: "findPositions n' = Inr (p1, p2)"
      and rec: "read_loop rest n' t' m1 (vs @ [\<lparr>name = nm, type = ty, pos1 = p1, pos2 = p2\<rparr>])
                 (log @ ''varName: '' @ nm @ [TAB] @ ''varType: '' @ ty @ [NL]) = Inr (vs', m', log')"
      by (subst (asm) read_loop.simps) (auto split: sum.splits)
    from r Some q "1.prems"(2,3) have h: "holds_text n'" "holds_text t'"
      using parseIecVars_holds_text [of s n t m rest n' t' m1] by simp_all
    with nm ty have ne: "nm \<noteq> []" "ty \<noteq> []"
      by (auto simp: holds_text_def)
    show ?thesis
    proof (rule "1.IH" [OF r Some q [symmetric] refl refl nm ty p refl rec h])
      fix w assume "w \<in> set (vs @ [\<lparr>name = nm, type = ty, pos1 = p1, pos2 = p2\<rparr>])"
      with "1.prems"(4) ne show "name w \<noteq> [] \<and> type w \<noteq> []"
        by auto
    qed (rule "1.prems"(5))
  qed
qed

lemma generateBody_declarations_nonempty:
  assumes "read_loop locatedVars (replicate 100 None) (replicate 100 None) md5_init [] [] =
             Inr (all_vars, md5_state, log)"
    and "v \<in> set all_vars"
  shows "name v \<noteq> [] \<and> type v \<noteq> []"
  using assms(1) _ _ _ assms(2)
  by (rule read_loop_nonempty) (simp_all add: holds_text_def c_str_uninitialised)

end
